theory Spec2Isabelle
  imports Main
begin

section \<open>The document: a forest of nodes over a store of element objects\<close>

text \<open>
  The scripts work on the live document. A node of the document is a text node or an
  element; an element is a reference (a number standing for the JavaScript object) with
  its child nodes. What an element object carries (tag name, class list, attributes,
  inline style) lives in a store indexed by the reference, so that
  \<^verbatim>\<open>el.setAttribute\<close> and \<^verbatim>\<open>el.classList.add\<close> through any alias of the reference
  are updates of the store. The document itself is the list of the top-level nodes.
  Strings are lists of 8-bit characters: the model covers ASCII text.
\<close>

datatype node = Text string | Elem nat "node list"

record element =
  tagName :: string
  classList :: "string set"
  attributes :: "string \<rightharpoonup> string"
  style :: "string \<Rightarrow> string"

definition blank :: "string \<Rightarrow> element" where
  "blank tg = \<lparr>tagName = tg, classList = {}, attributes = Map.empty, style = (\<lambda>_. [])\<rparr>"

text \<open>The pairs of an element reference and its subtree, in document order.\<close>

fun subtrees :: "node \<Rightarrow> (nat \<times> node list) list" where
  "subtrees (Text s) = []"
| "subtrees (Elem i ks) = (i, ks) # concat (map subtrees ks)"

definition subtreesL :: "node list \<Rightarrow> (nat \<times> node list) list" where
  "subtreesL ks = concat (map subtrees ks)"

definition elems :: "node list \<Rightarrow> nat list" where
  "elems ks = map fst (subtreesL ks)"

definition childNodes :: "node list \<Rightarrow> nat \<Rightarrow> node list option" where
  "childNodes d i = map_of (subtreesL d) i"

text \<open>
  \<^verbatim>\<open>el.parentNode\<close> followed to the top: every element reference with the chain that
  starts at the element itself and goes up through its ancestors.
\<close>

fun chains :: "nat list \<Rightarrow> node \<Rightarrow> (nat \<times> nat list) list" where
  "chains up (Text s) = []"
| "chains up (Elem i ks) = (i, i # up) # concat (map (chains (i # up)) ks)"

definition chainsL :: "nat list \<Rightarrow> node list \<Rightarrow> (nat \<times> nat list) list" where
  "chainsL up ks = concat (map (chains up) ks)"

fun textContent :: "node \<Rightarrow> string" where
  "textContent (Text s) = s"
| "textContent (Elem i ks) = concat (map textContent ks)"

definition textContentL :: "node list \<Rightarrow> string" where
  "textContentL ks = concat (map textContent ks)"


subsection \<open>Strings\<close>

text \<open>
  \<^verbatim>\<open>toLowerCase\<close> on ASCII, \<^verbatim>\<open>trim\<close> of ASCII white space (tab, line feed, vertical
  tab, form feed, carriage return, space), \<^verbatim>\<open>indexOf\<close> with \<open>None\<close> for the
  source's \<open>-1\<close>, \<^verbatim>\<open>includes\<close>, \<^verbatim>\<open>startsWith\<close> and \<^verbatim>\<open>substring\<close>.
\<close>

definition lowerChar :: "char \<Rightarrow> char" where
  "lowerChar c =
     (case map_of (zip ''ABCDEFGHIJKLMNOPQRSTUVWXYZ'' ''abcdefghijklmnopqrstuvwxyz'') c of
        None \<Rightarrow> c
      | Some l \<Rightarrow> l)"

definition toLowerCase :: "string \<Rightarrow> string" where
  "toLowerCase s = map lowerChar s"

definition isSpace :: "char \<Rightarrow> bool" where
  "isSpace c = ((of_char c :: nat) \<in> {9, 10, 11, 12, 13, 32})"

definition trim :: "string \<Rightarrow> string" where
  "trim s = rev (dropWhile isSpace (rev (dropWhile isSpace s)))"

fun startsWith :: "string \<Rightarrow> string \<Rightarrow> bool" where
  "startsWith s [] = True"
| "startsWith [] (q # qs) = False"
| "startsWith (c # cs) (q # qs) = (c = q \<and> startsWith cs qs)"

fun indexOf :: "string \<Rightarrow> string \<Rightarrow> nat option" where
  "indexOf [] q = (if q = [] then Some 0 else None)"
| "indexOf (c # cs) q = (if startsWith (c # cs) q then Some 0 else map_option Suc (indexOf cs q))"

definition str_includes :: "string \<Rightarrow> string \<Rightarrow> bool" where
  "str_includes s q = (indexOf s q \<noteq> None)"

definition substring :: "string \<Rightarrow> nat \<Rightarrow> nat \<Rightarrow> string" where
  "substring s a b = take (b - a) (drop a s)"

text \<open>\<^verbatim>\<open>Array.prototype.indexOf\<close>: the first position of an entry, or \<open>-1\<close>.\<close>

fun arr_indexOf :: "'a list \<Rightarrow> 'a \<Rightarrow> int" where
  "arr_indexOf [] x = -1"
| "arr_indexOf (y # ys) x =
     (if y = x then 0 else (let r = arr_indexOf ys x in if r < 0 then -1 else r + 1))"

text \<open>\<^verbatim>\<open>xs[0]\<close> and \<^verbatim>\<open>xs[xs.length - 1]\<close>, which are \<^verbatim>\<open>undefined\<close> on an empty array.\<close>

definition first_opt :: "'a list \<Rightarrow> 'a option" where
  "first_opt xs = (case xs of [] \<Rightarrow> None | x # _ \<Rightarrow> Some x)"

definition last_opt :: "'a list \<Rightarrow> 'a option" where
  "last_opt xs = (if xs = [] then None else Some (last xs))"

subsection \<open>The page: document, store and the module-level variables\<close>

text \<open>
  \<open>search_env\<close> is what the input listener of \<^verbatim>\<open>initSearch\<close> closes over. A
  \<open>handler\<close> names a listener function together with the values it closes over; the
  page keeps the list of installed listeners. The remaining fields are the state the
  scripts read and write: the focused element, local storage, the custom properties of
  the root element's computed style, the viewport width, the module-level variables of
  the keyboard module (\<open>currentFocusedItem\<close>, \<open>globalKeydownHandler\<close>,
  \<open>navKeydownHandler\<close>, \<open>currentNav\<close>) and of the resize module
  (\<open>isInitialized\<close>), the variables shared by the closures of
  \<^verbatim>\<open>initResizable\<close> (\<open>isResizing\<close>, \<open>startX\<close>, \<open>startWidth\<close>) and the
  callbacks handed to \<^verbatim>\<open>requestAnimationFrame\<close>. The last field, \<open>canFocus\<close>, is the
  browser's part in \<^verbatim>\<open>el.focus()\<close>: whether an element can take the focus, which the
  browser decides from the element objects (tag, attributes such as \<open>tabindex\<close>,
  classes, styles) and the document under the page's style sheets. The style sheets
  are not part of the sources at hand, so this is a parameter of the page.
\<close>

record search_env =
  navItems :: "nat list"
  sections :: "nat list"
  emptyState :: nat

datatype evtarget = Document | Window | Node nat

datatype callback = ClearTransitions nat nat | RequestFrame callback

datatype handler =
    SearchInput search_env
  | KeydownHandler nat "nat option"
  | HandleGlobalKeydown
  | HandleNavKeydown
  | ResizeMouseDown nat nat
  | ResizeMouseMove nat nat
  | ResizeMouseUp nat nat
  | WindowResize nat nat

record page =
  doc :: "node list"
  objs :: "nat \<Rightarrow> element"
  nextId :: nat
  activeElement :: "nat option"
  listeners :: "(evtarget \<times> string \<times> handler) list"
  localStorage :: "string \<rightharpoonup> string"
  rootStyle :: "string \<Rightarrow> string"
  innerWidth :: int
  body :: nat
  currentFocusedItem :: "nat option"
  globalKeydownHandler :: "handler option"
  navKeydownHandler :: "handler option"
  currentNav :: "nat option"
  isInitialized :: bool
  isResizing :: bool
  startX :: int
  startWidth :: int
  animationFrames :: "callback list"
  canFocus :: "(nat \<Rightarrow> element) \<Rightarrow> node list \<Rightarrow> nat \<Rightarrow> bool"

subsection \<open>The DOM interface used by the scripts\<close>

definition hasClass :: "page \<Rightarrow> string \<Rightarrow> nat \<Rightarrow> bool" where
  "hasClass st c i = (c \<in> classList (objs st i))"

definition hasAttribute :: "page \<Rightarrow> string \<Rightarrow> nat \<Rightarrow> bool" where
  "hasAttribute st a i = (attributes (objs st i) a \<noteq> None)"

definition getAttribute :: "page \<Rightarrow> string \<Rightarrow> nat \<Rightarrow> string option" where
  "getAttribute st a i = attributes (objs st i) a"

definition setAttribute :: "nat \<Rightarrow> string \<Rightarrow> string \<Rightarrow> page \<Rightarrow> page" where
  "setAttribute i a v st =
     st\<lparr>objs := (objs st)(i := (objs st i)\<lparr>attributes := (attributes (objs st i))(a \<mapsto> v)\<rparr>)\<rparr>"

definition removeAttribute :: "nat \<Rightarrow> string \<Rightarrow> page \<Rightarrow> page" where
  "removeAttribute i a st =
     st\<lparr>objs := (objs st)(i := (objs st i)\<lparr>attributes := (attributes (objs st i))(a := None)\<rparr>)\<rparr>"

definition classList_add :: "nat \<Rightarrow> string \<Rightarrow> page \<Rightarrow> page" where
  "classList_add i c st =
     st\<lparr>objs := (objs st)(i := (objs st i)\<lparr>classList := insert c (classList (objs st i))\<rparr>)\<rparr>"

definition classList_remove :: "nat \<Rightarrow> string \<Rightarrow> page \<Rightarrow> page" where
  "classList_remove i c st =
     st\<lparr>objs := (objs st)(i := (objs st i)\<lparr>classList := classList (objs st i) - {c}\<rparr>)\<rparr>"

definition setStyle :: "nat \<Rightarrow> string \<Rightarrow> string \<Rightarrow> page \<Rightarrow> page" where
  "setStyle i p v st =
     st\<lparr>objs := (objs st)(i := (objs st i)\<lparr>style := (style (objs st i))(p := v)\<rparr>)\<rparr>"

text \<open>
  \<^verbatim>\<open>container.querySelectorAll(sel)\<close>: the descendants of the container that match, in
  document order; \<^verbatim>\<open>querySelector\<close> is the first of them. The selector is given as
  the predicate it denotes. The \<open>document\<close> versions range over the whole document.
\<close>

definition querySelectorAll :: "page \<Rightarrow> nat \<Rightarrow> (nat \<Rightarrow> bool) \<Rightarrow> nat list" where
  "querySelectorAll st container sel =
     (case childNodes (doc st) container of None \<Rightarrow> [] | Some ks \<Rightarrow> filter sel (elems ks))"

definition querySelector :: "page \<Rightarrow> nat \<Rightarrow> (nat \<Rightarrow> bool) \<Rightarrow> nat option" where
  "querySelector st container sel = first_opt (querySelectorAll st container sel)"

definition document_querySelectorAll :: "page \<Rightarrow> (nat \<Rightarrow> bool) \<Rightarrow> nat list" where
  "document_querySelectorAll st sel = filter sel (elems (doc st))"

definition document_querySelector :: "page \<Rightarrow> (nat \<Rightarrow> bool) \<Rightarrow> nat option" where
  "document_querySelector st sel = first_opt (document_querySelectorAll st sel)"

definition getElementById :: "page \<Rightarrow> string \<Rightarrow> nat option" where
  "getElementById st s = document_querySelector st (\<lambda>i. getAttribute st ''id'' i = Some s)"

text \<open>\<^verbatim>\<open>el.closest(sel)\<close>: the element itself or its nearest ancestor that matches.\<close>

definition closest :: "page \<Rightarrow> (nat \<Rightarrow> bool) \<Rightarrow> nat \<Rightarrow> nat option" where
  "closest st sel i =
     (case map_of (chainsL [] (doc st)) i of None \<Rightarrow> None | Some ch \<Rightarrow> List.find sel ch)"

text \<open>
  \<^verbatim>\<open>nav.querySelectorAll(':scope > div:first-child ' + sel)\<close>: the matches below the
  first element child of \<open>nav\<close>, when that child is a \<open>div\<close>.
\<close>

fun firstElementChild :: "node list \<Rightarrow> nat option" where
  "firstElementChild [] = None"
| "firstElementChild (Text s # ks) = firstElementChild ks"
| "firstElementChild (Elem i cs # ks) = Some i"

definition staticLinks :: "page \<Rightarrow> nat \<Rightarrow> (nat \<Rightarrow> bool) \<Rightarrow> nat list" where
  "staticLinks st nav sel =
     (case childNodes (doc st) nav of
        None \<Rightarrow> []
      | Some ks \<Rightarrow>
          (case firstElementChild ks of
             None \<Rightarrow> []
           | Some d \<Rightarrow> if tagName (objs st d) = ''DIV'' then querySelectorAll st d sel else []))"

text \<open>\<^verbatim>\<open>e.target instanceof HTMLInputElement || e.target instanceof HTMLTextAreaElement\<close>.\<close>

definition isTextEntry :: "page \<Rightarrow> nat \<Rightarrow> bool" where
  "isTextEntry st i = (tagName (objs st i) = ''INPUT'' \<or> tagName (objs st i) = ''TEXTAREA'')"

text \<open>
  \<^verbatim>\<open>el.focus()\<close> and \<^verbatim>\<open>el.blur()\<close>. \<^verbatim>\<open>el.focus()\<close> does nothing on an element that
  cannot take the focus (an element that is not rendered, such as one below a hidden
  element, or one that is not focusable) and nothing on the element that holds the
  focus. Moving the focus away from an element runs the document's \<open>focusout\<close>
  listener with that element as target and the new holder as related target, before
  the focus changes. The listener is a parameter: the two keyboard modules install
  different ones. Scrolling (\<^verbatim>\<open>scrollIntoView\<close>) changes nothing that is modelled.
\<close>

definition focusable :: "page \<Rightarrow> nat \<Rightarrow> bool" where
  "focusable st i = canFocus st (objs st) (doc st) i"

definition focus :: "(nat \<Rightarrow> nat option \<Rightarrow> page \<Rightarrow> page) \<Rightarrow> nat \<Rightarrow> page \<Rightarrow> page" where
  "focus onFocusout i st =
     (if \<not> focusable st i \<or> activeElement st = Some i then st
      else (case activeElement st of
              None \<Rightarrow> st
            | Some old \<Rightarrow> onFocusout old (Some i) st)\<lparr>activeElement := Some i\<rparr>)"

definition blur :: "(nat \<Rightarrow> nat option \<Rightarrow> page \<Rightarrow> page) \<Rightarrow> nat \<Rightarrow> page \<Rightarrow> page" where
  "blur onFocusout i st =
     (if activeElement st = Some i then (onFocusout i None st)\<lparr>activeElement := None\<rparr> else st)"

text \<open>
  The collapsible module is imported by the keyboard modules and is not part of the
  sources at hand; so is what a synthetic \<^verbatim>\<open>click()\<close> triggers. They are parameters.
\<close>

record externals =
  click :: "nat \<Rightarrow> page \<Rightarrow> page"
  collapseCurrentSection :: "nat \<Rightarrow> page \<Rightarrow> page"
  expandCurrentSection :: "nat \<Rightarrow> page \<Rightarrow> page"

record key_event =
  key :: string
  target :: nat


section \<open>Keyboard navigation (the module with one global listener)\<close>

text \<open>
  \<^verbatim>\<open>getVisibleNavItems(container)\<close>: the matches of
  \<^verbatim>\<open>[data-nav-item]:not(.hidden)\<close> below the container, kept when
  \<^verbatim>\<open>item.closest('.nav-section')\<close> is absent or carries the class \<open>expanded\<close>.
  The function is the same in both keyboard modules.
\<close>

definition getVisibleNavItems :: "page \<Rightarrow> nat \<Rightarrow> nat list" where
  "getVisibleNavItems st container =
     (let allItems = querySelectorAll st container
            (\<lambda>i. hasAttribute st ''data-nav-item'' i \<and> \<not> hasClass st ''hidden'' i)
      in filter (\<lambda>item.
           (case closest st (hasClass st ''nav-section'') item of
              None \<Rightarrow> True
            | Some section \<Rightarrow> hasClass st ''expanded'' section)) allItems)"

definition initializeTabindex :: "nat \<Rightarrow> page \<Rightarrow> page" where
  "initializeTabindex nav st =
     (let items = getVisibleNavItems st nav;
          activeItem = querySelector st nav (\<lambda>i. hasClass st ''nav-item'' i \<and> hasClass st ''active'' i);
          st1 = foldl (\<lambda>s item. setAttribute item ''tabindex'' ''-1'' s) st items
      in (case activeItem of
            Some a \<Rightarrow> (setAttribute a ''tabindex'' ''0'' st1)\<lparr>currentFocusedItem := Some a\<rparr>
          | None \<Rightarrow>
              (case first_opt items of
                 Some i0 \<Rightarrow> (setAttribute i0 ''tabindex'' ''0'' st1)\<lparr>currentFocusedItem := Some i0\<rparr>
               | None \<Rightarrow> st1)))"

text \<open>The \<open>focusout\<close> listener the module installs on the document when it is loaded.\<close>

definition focusout :: "nat \<Rightarrow> nat option \<Rightarrow> page \<Rightarrow> page" where
  "focusout tgt relatedTarget st =
     (if hasAttribute st ''data-nav-item'' tgt then
        (let isMovingToNavItem =
               (case relatedTarget of
                  None \<Rightarrow> False
                | Some r \<Rightarrow> hasAttribute st ''data-nav-item'' r
                            \<or> closest st (hasClass st ''sidebar-nav'') r \<noteq> None)
         in if \<not> isMovingToNavItem then removeAttribute tgt ''data-focused'' st else st)
      else st)"

definition setFocusedItem :: "nat \<Rightarrow> page \<Rightarrow> page" where
  "setFocusedItem item st =
     (let st1 = (case currentFocusedItem st of
                   Some c \<Rightarrow>
                     if c \<noteq> item
                     then removeAttribute c ''data-focused'' (setAttribute c ''tabindex'' ''-1'' st)
                     else st
                 | None \<Rightarrow> st);
          st2 = setAttribute item ''data-focused'' ''true'' (setAttribute item ''tabindex'' ''0'' st1);
          st3 = focus focusout item st2
      in st3\<lparr>currentFocusedItem := Some item\<rparr>)"

text \<open>
  The handlers return whether \<^verbatim>\<open>preventDefault\<close> was called, and the page.
\<close>

definition handleSectionHeaderKeydown :: "externals \<Rightarrow> key_event \<Rightarrow> nat \<Rightarrow> page \<Rightarrow> bool \<times> page" where
  "handleSectionHeaderKeydown ext e tgt st =
     (case closest st (hasClass st ''sidebar-nav'') tgt of
        None \<Rightarrow> (False, st)
      | Some nav \<Rightarrow>
     (case closest st (hasClass st ''nav-section'') tgt of
        None \<Rightarrow> (False, st)
      | Some section \<Rightarrow>
          if key e = ''ArrowRight'' then
            (if \<not> hasClass st ''expanded'' section then (True, click ext tgt st) else (False, st))
          else if key e = ''ArrowLeft'' then
            (if hasClass st ''expanded'' section then (True, click ext tgt st) else (False, st))
          else if key e = ''ArrowDown'' then
            (True,
             case (if hasClass st ''expanded'' section
                   then querySelector st section (hasClass st ''nav-item'') else None) of
               Some firstItem \<Rightarrow> setFocusedItem firstItem st
             | None \<Rightarrow>
                 (let allHeaders = querySelectorAll st nav (hasClass st ''nav-section-header'');
                      currentIndex = arr_indexOf allHeaders tgt
                  in if currentIndex < int (length allHeaders) - 1
                     then focus focusout (allHeaders ! nat (currentIndex + 1)) st
                     else st))
          else if key e = ''ArrowUp'' then
            (True,
             let headers = querySelectorAll st nav (hasClass st ''nav-section-header'');
                 idx = arr_indexOf headers tgt
             in if idx > 0 then focus focusout (headers ! nat (idx - 1)) st
                else (case last_opt (staticLinks st nav (hasAttribute st ''data-nav-item'')) of
                        Some lastStatic \<Rightarrow> setFocusedItem lastStatic st
                      | None \<Rightarrow> st))
          else if key e = ''Home'' then
            (True, case first_opt (getVisibleNavItems st nav) of
                     Some firstItem \<Rightarrow> setFocusedItem firstItem st
                   | None \<Rightarrow> st)
          else if key e = ''End'' then
            (True, case last_opt (getVisibleNavItems st nav) of
                     Some lastItem \<Rightarrow> setFocusedItem lastItem st
                   | None \<Rightarrow> st)
          else (False, st)))"

definition sectionHeaderOf :: "page \<Rightarrow> nat \<Rightarrow> nat option" where
  "sectionHeaderOf st tgt =
     (case closest st (hasClass st ''nav-section'') tgt of
        None \<Rightarrow> None
      | Some section \<Rightarrow> querySelector st section (hasClass st ''nav-section-header''))"

definition handleNavItemKeydown :: "externals \<Rightarrow> key_event \<Rightarrow> nat \<Rightarrow> page \<Rightarrow> bool \<times> page" where
  "handleNavItemKeydown ext e tgt st =
     (case closest st (hasClass st ''sidebar-nav'') tgt of
        None \<Rightarrow> (False, st)
      | Some nav \<Rightarrow>
          (let items = getVisibleNavItems st nav;
               currentIndex = arr_indexOf items tgt
           in if key e = ''ArrowDown'' then
                (True,
                 if currentIndex \<ge> 0 \<and> currentIndex < int (length items) - 1
                 then setFocusedItem (items ! nat (currentIndex + 1)) st
                 else (case querySelector st nav (hasClass st ''nav-section-header'') of
                         Some firstHeader \<Rightarrow> focus focusout firstHeader st
                       | None \<Rightarrow> st))
              else if key e = ''ArrowUp'' then
                (True,
                 if currentIndex > 0 then setFocusedItem (items ! nat (currentIndex - 1)) st
                 else if currentIndex = 0 then
                   (case sectionHeaderOf st tgt of
                      Some header \<Rightarrow> focus focusout header st
                    | None \<Rightarrow> st)
                 else
                   (case sectionHeaderOf st tgt of
                      Some header \<Rightarrow> focus focusout header st
                    | None \<Rightarrow> st))
              else if key e = ''ArrowLeft'' then
                (True,
                 case closest st (hasClass st ''nav-section'') tgt of
                   None \<Rightarrow> st
                 | Some sectionLeft \<Rightarrow>
                     (let st1 = collapseCurrentSection ext tgt st
                      in case querySelector st1 sectionLeft (hasClass st1 ''nav-section-header'') of
                           Some headerLeft \<Rightarrow> focus focusout headerLeft st1
                         | None \<Rightarrow> st1))
              else if key e = ''ArrowRight'' then (True, expandCurrentSection ext tgt st)
              else if key e = ''Home'' then
                (True, case first_opt items of Some i0 \<Rightarrow> setFocusedItem i0 st | None \<Rightarrow> st)
              else if key e = ''End'' then
                (True, case last_opt items of Some il \<Rightarrow> setFocusedItem il st | None \<Rightarrow> st)
              else if key e = ''Enter'' then (False, st)
              else if key e = '' '' then (True, click ext tgt st)
              else (False, st)))"

text \<open>
  The third case of the global handler: the focus is outside the navigation. The
  selector \<^verbatim>\<open>.app-sidebar-left:not([style*="display: none"])\<close> reads the text of the
  \<open>style\<close> attribute.
\<close>

definition focusIntoSidebar :: "page \<Rightarrow> page" where
  "focusIntoSidebar st =
     (let sidebar = document_querySelector st
            (\<lambda>i. hasClass st ''app-sidebar-left'' i \<and>
                 \<not> (case getAttribute st ''style'' i of
                        None \<Rightarrow> False
                      | Some v \<Rightarrow> str_includes v ''display: none''));
          inSidebar = (case sidebar of
              None \<Rightarrow> None
            | Some sb \<Rightarrow> querySelector st sb (hasClass st ''sidebar-nav''));
          activeNav = (case inSidebar of
              Some n \<Rightarrow> Some n
            | None \<Rightarrow> document_querySelector st (hasClass st ''sidebar-nav''))
      in case activeNav of
           None \<Rightarrow> st
         | Some nav \<Rightarrow>
             (let items = getVisibleNavItems st nav
              in if length items = 0 then st
                 else
                   (let activeItem = querySelector st nav
                          (\<lambda>i. hasClass st ''nav-item'' i \<and> hasClass st ''active'' i);
                        targetItem = (case activeItem of
                            Some a \<Rightarrow> Some a
                          | None \<Rightarrow> (case currentFocusedItem st of
                                       Some c \<Rightarrow> Some c
                                     | None \<Rightarrow> first_opt items))
                    in case targetItem of
                         Some t \<Rightarrow>
                           if t \<in> set items then setFocusedItem t st
                           else (case first_opt items of
                                   Some i0 \<Rightarrow> setFocusedItem i0 st
                                 | None \<Rightarrow> st)
                       | None \<Rightarrow>
                           (case first_opt items of
                              Some i0 \<Rightarrow> setFocusedItem i0 st
                            | None \<Rightarrow> st))))"

definition createKeydownHandler ::
    "externals \<Rightarrow> nat \<Rightarrow> nat option \<Rightarrow> key_event \<Rightarrow> page \<Rightarrow> bool \<times> page" where
  "createKeydownHandler ext nav searchInput e st =
     (if isTextEntry st (target e) \<and> key e \<noteq> ''Escape'' then (False, st)
      else if key e = ''/'' then
        (True, case searchInput of None \<Rightarrow> st | Some s \<Rightarrow> focus focusout s st)
      else if key e = ''Escape'' \<and> searchInput = Some (target e) then
        (True,
         let st1 = blur focusout (target e) st
         in case currentFocusedItem st1 of
              Some c \<Rightarrow> focus focusout c st1
            | None \<Rightarrow> st1)
      else if key e \<notin> set [''ArrowUp'', ''ArrowDown'', ''ArrowLeft'', ''ArrowRight'', ''Home'', ''End'']
        then (False, st)
      else if hasClass st ''nav-section-header'' (target e)
        then handleSectionHeaderKeydown ext e (target e) st
      else if hasAttribute st ''data-nav-item'' (target e)
        then handleNavItemKeydown ext e (target e) st
      else (True, focusIntoSidebar st))"

text \<open>
  \<^verbatim>\<open>initKeyboardNavigation(searchInputId)\<close>:
  \<^verbatim>\<open>searchInput?.closest('.sidebar-content')?.querySelector('.sidebar-nav')\<close>, the return
  when there is no such \<open>nav\<close>, the removal of the previous listener, the tabindex
  set-up and the installation of the new listener.
\<close>

definition findNav :: "page \<Rightarrow> nat option \<Rightarrow> nat option" where
  "findNav st searchInput =
     (case searchInput of
        None \<Rightarrow> None
      | Some s \<Rightarrow>
          (case closest st (hasClass st ''sidebar-content'') s of
             None \<Rightarrow> None
           | Some c \<Rightarrow> querySelector st c (hasClass st ''sidebar-nav'')))"

definition removeEventListener :: "evtarget \<Rightarrow> string \<Rightarrow> handler \<Rightarrow> page \<Rightarrow> page" where
  "removeEventListener t ev h st = st\<lparr>listeners := remove1 (t, ev, h) (listeners st)\<rparr>"

text \<open>
  A listener that is a closure is a new function object at every installation; the two
  named functions of the second keyboard module are the same object every time, and
  installing the same object twice on one target is ignored.
\<close>

fun namedFunction :: "handler \<Rightarrow> bool" where
  "namedFunction HandleGlobalKeydown = True"
| "namedFunction HandleNavKeydown = True"
| "namedFunction h = False"

definition addEventListener :: "evtarget \<Rightarrow> string \<Rightarrow> handler \<Rightarrow> page \<Rightarrow> page" where
  "addEventListener t ev h st =
     (if namedFunction h \<and> (t, ev, h) \<in> set (listeners st) then st
      else st\<lparr>listeners := listeners st @ [(t, ev, h)]\<rparr>)"

definition initKeyboardNavigation :: "string \<Rightarrow> page \<Rightarrow> page" where
  "initKeyboardNavigation searchInputId st =
     (let searchInput = getElementById st searchInputId
      in case findNav st searchInput of
           None \<Rightarrow> st
         | Some nav \<Rightarrow>
             (let st1 = (case globalKeydownHandler st of
                           Some h \<Rightarrow> removeEventListener Document ''keydown'' h st
                         | None \<Rightarrow> st);
                  st2 = initializeTabindex nav st1;
                  h' = KeydownHandler nav searchInput
              in addEventListener Document ''keydown'' h' (st2\<lparr>globalKeydownHandler := Some h'\<rparr>)))"


text \<open>
  A \<open>keydown\<close> on any element reaches the document's listener (bubbling). The
  listener on the document is the one the module variable holds:
  \<^verbatim>\<open>initKeyboardNavigation\<close> removes the previous one before it installs the next.
\<close>

definition keydown :: "externals \<Rightarrow> key_event \<Rightarrow> page \<Rightarrow> bool \<times> page" where
  "keydown ext e st =
     (case globalKeydownHandler st of
        Some (KeydownHandler nav searchInput) \<Rightarrow> createKeydownHandler ext nav searchInput e st
      | _ \<Rightarrow> (False, st))"

section \<open>Keyboard navigation (the module with a global and a per-nav listener)\<close>

text \<open>
  The second keyboard module of the repository. Its names are those of the first; here
  they carry a prime. Its \<open>focusout\<close> listener removes the marker whenever a nav
  item loses the focus, its \<^verbatim>\<open>setFocusedItem\<close> resets the previous holder without
  comparing it with the new one, and its handlers are two named functions.
\<close>

definition focusout' :: "nat \<Rightarrow> nat option \<Rightarrow> page \<Rightarrow> page" where
  "focusout' tgt relatedTarget st =
     (if hasAttribute st ''data-nav-item'' tgt then removeAttribute tgt ''data-focused'' st else st)"

definition setFocusedItem' :: "nat \<Rightarrow> page \<Rightarrow> page" where
  "setFocusedItem' item st =
     (let st1 = (case currentFocusedItem st of
                   Some c \<Rightarrow> removeAttribute c ''data-focused'' (setAttribute c ''tabindex'' ''-1'' st)
                 | None \<Rightarrow> st);
          st2 = setAttribute item ''data-focused'' ''true'' (setAttribute item ''tabindex'' ''0'' st1);
          st3 = focus focusout' item st2
      in st3\<lparr>currentFocusedItem := Some item\<rparr>)"

text \<open>The selector \<^verbatim>\<open>[id^="..."]\<close>.\<close>

definition idStartsWith :: "page \<Rightarrow> string \<Rightarrow> nat \<Rightarrow> bool" where
  "idStartsWith st p i = (case getAttribute st ''id'' i of None \<Rightarrow> False | Some v \<Rightarrow> startsWith v p)"

definition handleGlobalKeydown :: "key_event \<Rightarrow> page \<Rightarrow> bool \<times> page" where
  "handleGlobalKeydown e st =
     (if isTextEntry st (target e) then (False, st)
      else if key e = ''/'' then
        (True,
         case document_querySelector st (idStartsWith st ''sidebar-search-'') of
           None \<Rightarrow> st
         | Some searchInput \<Rightarrow> focus focusout' searchInput st)
      else (False, st))"

definition handleSectionHeaderKeydown' :: "externals \<Rightarrow> key_event \<Rightarrow> nat \<Rightarrow> page \<Rightarrow> bool \<times> page" where
  "handleSectionHeaderKeydown' ext e tgt st =
     (let section = closest st (hasClass st ''nav-section'') tgt;
          isExpanded = (case section of None \<Rightarrow> False | Some sc \<Rightarrow> hasClass st ''expanded'' sc)
      in if key e = ''ArrowRight'' \<and> section \<noteq> None \<and> \<not> isExpanded then (True, click ext tgt st)
         else if key e = ''ArrowLeft'' \<and> section \<noteq> None \<and> isExpanded then (True, click ext tgt st)
         else if key e = ''ArrowDown'' then
           (True,
            case (case section of
                    None \<Rightarrow> None
                  | Some sc \<Rightarrow> if isExpanded then querySelector st sc (hasClass st ''nav-item'') else None) of
              Some firstItem \<Rightarrow> setFocusedItem' firstItem st
            | None \<Rightarrow>
                (let allHeaders = document_querySelectorAll st (hasClass st ''nav-section-header'');
                     currentIndex = arr_indexOf allHeaders tgt
                 in if currentIndex < int (length allHeaders) - 1
                    then focus focusout' (allHeaders ! nat (currentIndex + 1)) st
                    else st))
         else if key e = ''ArrowUp'' then
           (True,
            let allHeaders = document_querySelectorAll st (hasClass st ''nav-section-header'');
                currentIndex = arr_indexOf allHeaders tgt
            in if currentIndex > 0 then focus focusout' (allHeaders ! nat (currentIndex - 1)) st
               else (case closest st (hasClass st ''sidebar-nav'') tgt of
                       None \<Rightarrow> st
                     | Some nav \<Rightarrow>
                         (case last_opt (staticLinks st nav (hasClass st ''nav-item'')) of
                            Some lastStatic \<Rightarrow> setFocusedItem' lastStatic st
                          | None \<Rightarrow> st)))
         else (False, st))"

definition sectionHeaderOf' :: "page \<Rightarrow> nat \<Rightarrow> nat option" where
  "sectionHeaderOf' st tgt =
     (case closest st (hasClass st ''nav-section'') tgt of
        None \<Rightarrow> None
      | Some section \<Rightarrow> querySelector st section (hasClass st ''nav-section-header''))"

definition handleNavKeydown :: "externals \<Rightarrow> key_event \<Rightarrow> page \<Rightarrow> bool \<times> page" where
  "handleNavKeydown ext e st =
     (let tgt = target e
      in if hasClass st ''nav-section-header'' tgt then handleSectionHeaderKeydown' ext e tgt st
         else if \<not> hasAttribute st ''data-nav-item'' tgt then (False, st)
         else
           (case closest st (hasClass st ''sidebar-nav'') tgt of
              None \<Rightarrow> (False, st)
            | Some nav \<Rightarrow>
                (let items = getVisibleNavItems st nav;
                     currentIndex = arr_indexOf items tgt
                 in if key e = ''ArrowDown'' then
                      (True,
                       if currentIndex < int (length items) - 1
                       then setFocusedItem' (items ! nat (currentIndex + 1)) st
                       else st)
                    else if key e = ''ArrowUp'' then
                      (True,
                       if currentIndex > 0 then setFocusedItem' (items ! nat (currentIndex - 1)) st
                       else (case sectionHeaderOf' st tgt of
                               Some header \<Rightarrow> focus focusout' header st
                             | None \<Rightarrow> st))
                    else if key e = ''ArrowLeft'' then
                      (True,
                       let st1 = collapseCurrentSection ext tgt st
                       in case sectionHeaderOf' st1 tgt of
                            Some headerLeft \<Rightarrow> focus focusout' headerLeft st1
                          | None \<Rightarrow> st1)
                    else if key e = ''ArrowRight'' then (True, expandCurrentSection ext tgt st)
                    else if key e = ''Home'' then
                      (True, case first_opt items of Some i0 \<Rightarrow> setFocusedItem' i0 st | None \<Rightarrow> st)
                    else if key e = ''End'' then
                      (True, case last_opt items of Some il \<Rightarrow> setFocusedItem' il st | None \<Rightarrow> st)
                    else (False, st))))"

text \<open>
  A \<open>keydown\<close> on an element inside the nav reaches the nav's listener first and the
  document's listener next (bubbling); the default action is prevented when either of
  them asks for it.
\<close>

definition keydown' :: "externals \<Rightarrow> key_event \<Rightarrow> page \<Rightarrow> bool \<times> page" where
  "keydown' ext e st =
     (let inNav = (case currentNav st of
                     None \<Rightarrow> False
                   | Some nav \<Rightarrow> (case map_of (chainsL [] (doc st)) (target e) of
                                   None \<Rightarrow> False
                                 | Some ch \<Rightarrow> nav \<in> set ch));
          r1 = (if inNav \<and> navKeydownHandler st = Some HandleNavKeydown
                then handleNavKeydown ext e st else (False, st));
          r2 = (if globalKeydownHandler st = Some HandleGlobalKeydown
                then handleGlobalKeydown e (snd r1) else (False, snd r1))
      in (fst r1 \<or> fst r2, snd r2))"

definition initKeyboardNavigation' :: "string \<Rightarrow> page \<Rightarrow> page" where
  "initKeyboardNavigation' searchInputId st =
     (let searchInput = getElementById st searchInputId
      in case findNav st searchInput of
           None \<Rightarrow> st
         | Some nav \<Rightarrow>
             (let st1 = (case globalKeydownHandler st of
                           Some h \<Rightarrow> removeEventListener Document ''keydown'' h st
                         | None \<Rightarrow> st);
                  st2 = (case (navKeydownHandler st1, currentNav st1) of
                           (Some h, Some n) \<Rightarrow> removeEventListener (Node n) ''keydown'' h st1
                         | _ \<Rightarrow> st1);
                  st3 = st2\<lparr>currentNav := Some nav\<rparr>;
                  items = getVisibleNavItems st3 nav;
                  activeItem = querySelector st3 nav
                     (\<lambda>i. hasClass st3 ''nav-item'' i \<and> hasClass st3 ''active'' i);
                  st4 = foldl (\<lambda>s item. setAttribute item ''tabindex'' ''-1'' s) st3 items;
                  st5 = (case activeItem of
                           Some a \<Rightarrow> (setAttribute a ''tabindex'' ''0'' st4)\<lparr>currentFocusedItem := Some a\<rparr>
                         | None \<Rightarrow>
                             (case first_opt items of
                                Some i0 \<Rightarrow>
                                  (setAttribute i0 ''tabindex'' ''0'' st4)\<lparr>currentFocusedItem := Some i0\<rparr>
                              | None \<Rightarrow> st4));
                  st6 = st5\<lparr>globalKeydownHandler := Some HandleGlobalKeydown,
                            navKeydownHandler := Some HandleNavKeydown\<rparr>
              in addEventListener (Node nav) ''keydown'' HandleNavKeydown
                   (addEventListener Document ''keydown'' HandleGlobalKeydown st6)))"


section \<open>Search\<close>

text \<open>
  \<^verbatim>\<open>parent.normalize()\<close>: in the subtree of the parent, empty text nodes are removed
  and adjacent text nodes are merged.
\<close>

fun mergeText :: "node list \<Rightarrow> node list" where
  "mergeText [] = []"
| "mergeText (Text s # ks) =
     (if s = [] then mergeText ks
      else (case mergeText ks of
              Text s' # r \<Rightarrow> Text (s @ s') # r
            | r \<Rightarrow> Text s # r))"
| "mergeText (Elem i cs # ks) = Elem i cs # mergeText ks"

fun normalize :: "node \<Rightarrow> node" where
  "normalize (Text s) = Text s"
| "normalize (Elem i ks) = Elem i (mergeText (map normalize ks))"

text \<open>
  One round of the loop that strips the highlight markers, for the marker \<open>m\<close>:
  \<^verbatim>\<open>parent.replaceChild(document.createTextNode(el.textContent || ''), el)\<close> and
  \<^verbatim>\<open>parent.normalize()\<close>, at the parent of \<open>m\<close>. \<open>clearOneL m ks\<close> looks for the
  marker in the child list \<open>ks\<close> of a parent and below. A marker that is no longer
  in the document (it was inside a marker replaced before) changes nothing in the
  document. The document node is treated as a parent like any element.
\<close>

fun isElem :: "nat \<Rightarrow> node \<Rightarrow> bool" where
  "isElem m (Text s) = False"
| "isElem m (Elem i ks) = (i = m)"

definition replaceChild :: "nat \<Rightarrow> node list \<Rightarrow> node list" where
  "replaceChild m ks = map (\<lambda>k. if isElem m k then Text (textContent k) else k) ks"

definition normalizeL :: "node list \<Rightarrow> node list" where
  "normalizeL ks = mergeText (map normalize ks)"

fun clearOne :: "nat \<Rightarrow> node \<Rightarrow> node" where
  "clearOne m (Text s) = Text s"
| "clearOne m (Elem p ks) =
     Elem p (if list_ex (isElem m) ks then normalizeL (replaceChild m ks)
             else map (clearOne m) ks)"

definition clearOneL :: "nat \<Rightarrow> node list \<Rightarrow> node list" where
  "clearOneL m ks =
     (if list_ex (isElem m) ks then normalizeL (replaceChild m ks) else map (clearOne m) ks)"

definition clearHighlights :: "page \<Rightarrow> page" where
  "clearHighlights st =
     st\<lparr>doc := foldl (\<lambda>d m. clearOneL m d) (doc st)
                  (document_querySelectorAll st (hasClass st ''search-highlight''))\<rparr>"

text \<open>
  \<^verbatim>\<open>highlightText(element, query)\<close>. The tree walker collects the text nodes below the
  element whose lower-cased text includes the query; each of them is then replaced by
  the fragment of the text before the first occurrence (if not empty), a new
  \<open>mark\<close> element holding the occurrence, and the text after it (if not empty).
  Creating an element takes the next free reference; the new object is a \<open>mark\<close>
  with the class \<open>search-highlight\<close>.
\<close>

definition markElement :: element where
  "markElement = \<lparr>tagName = ''MARK'', classList = {''search-highlight''},
                   attributes = Map.empty, style = (\<lambda>_. [])\<rparr>"

definition fragmentFor :: "string \<Rightarrow> nat \<Rightarrow> string \<Rightarrow> nat \<Rightarrow> node list" where
  "fragmentFor q n t index =
     (let beforeText = substring t 0 index;
          matchText = substring t index (index + length q);
          afterText = drop (index + length q) t
      in (if beforeText \<noteq> [] then [Text beforeText] else [])
         @ [Elem n (if matchText \<noteq> [] then [Text matchText] else [])]
         @ (if afterText \<noteq> [] then [Text afterText] else []))"

fun highlightNodes :: "string \<Rightarrow> nat \<Rightarrow> node list \<Rightarrow> node list \<times> nat" where
  "highlightNodes q n [] = ([], n)"
| "highlightNodes q n (Text t # ks) =
     (if str_includes (toLowerCase t) q then
        (case indexOf (toLowerCase t) q of
           None \<Rightarrow> (case highlightNodes q n ks of (ks', n') \<Rightarrow> (Text t # ks', n'))
         | Some index \<Rightarrow>
             (case highlightNodes q (Suc n) ks of (ks', n') \<Rightarrow> (fragmentFor q n t index @ ks', n')))
      else (case highlightNodes q n ks of (ks', n') \<Rightarrow> (Text t # ks', n')))"
| "highlightNodes q n (Elem i cs # ks) =
     (case highlightNodes q n cs of
        (cs', n1) \<Rightarrow> (case highlightNodes q n1 ks of (ks', n2) \<Rightarrow> (Elem i cs' # ks', n2)))"

fun highlightAt :: "nat \<Rightarrow> string \<Rightarrow> nat \<Rightarrow> node list \<Rightarrow> node list \<times> nat" where
  "highlightAt el q n [] = ([], n)"
| "highlightAt el q n (Text t # ks) =
     (case highlightAt el q n ks of (ks', n') \<Rightarrow> (Text t # ks', n'))"
| "highlightAt el q n (Elem i cs # ks) =
     (case (if i = el then highlightNodes q n cs else highlightAt el q n cs) of
        (cs', n1) \<Rightarrow> (case highlightAt el q n1 ks of (ks', n2) \<Rightarrow> (Elem i cs' # ks', n2)))"

definition highlightText :: "nat \<Rightarrow> string \<Rightarrow> page \<Rightarrow> page" where
  "highlightText el q st =
     (case highlightAt el q (nextId st) (doc st) of
        (d', n') \<Rightarrow>
          st\<lparr>doc := d', nextId := n',
             objs := (\<lambda>i. if nextId st \<le> i \<and> i < n' then markElement else objs st i)\<rparr>)"

text \<open>\<^verbatim>\<open>item.textContent\<close> of an element of the document.\<close>

definition textContentOf :: "page \<Rightarrow> nat \<Rightarrow> string" where
  "textContentOf st i = (case childNodes (doc st) i of None \<Rightarrow> [] | Some ks \<Rightarrow> textContentL ks)"

text \<open>
  The listener of the search input, for the value \<open>v\<close> of the input. \<open>processItem\<close>
  and \<open>processSection\<close> are the bodies of its two loops.
\<close>

definition processItem :: "string \<Rightarrow> bool \<times> page \<Rightarrow> nat \<Rightarrow> bool \<times> page" where
  "processItem query acc item =
     (let hasVisibleItems = fst acc; st = snd acc;
          textContent' = toLowerCase (textContentOf st item)
      in if str_includes textContent' query
         then (True, highlightText item query (classList_remove item ''hidden'' st))
         else (hasVisibleItems, classList_add item ''hidden'' st))"

definition processSection :: "page \<Rightarrow> nat \<Rightarrow> page" where
  "processSection st section =
     (let visibleItems = querySelectorAll st section
            (\<lambda>i. hasAttribute st ''data-nav-item'' i \<and> \<not> hasClass st ''hidden'' i)
      in if length visibleItems = 0 then classList_add section ''hidden'' st
         else classList_remove section ''hidden'' st)"

definition onInput :: "search_env \<Rightarrow> string \<Rightarrow> page \<Rightarrow> page" where
  "onInput env v st =
     (let query = trim (toLowerCase v);
          st1 = clearHighlights st
      in if query = [] then
           (let st2 = foldl (\<lambda>s item. classList_remove item ''hidden'' s) st1 (navItems env);
                st3 = foldl (\<lambda>s section. classList_remove section ''hidden'' s) st2 (sections env)
            in classList_add (emptyState env) ''hidden'' st3)
         else
           (let r = foldl (processItem query) (False, st1) (navItems env);
                st3 = foldl processSection (snd r) (sections env)
            in if fst r then classList_add (emptyState env) ''hidden'' st3
               else classList_remove (emptyState env) ''hidden'' st3))"

text \<open>
  \<^verbatim>\<open>initSearch(searchInputId, containerSelector)\<close>. The container selector is given as
  the predicate it denotes. The empty-state element and its paragraph are created and,
  when the container has a \<open>.sidebar-nav\<close>, appended to it.
\<close>

fun appendChild :: "nat \<Rightarrow> node \<Rightarrow> node list \<Rightarrow> node list" where
  "appendChild p c [] = []"
| "appendChild p c (Text t # ks) = Text t # appendChild p c ks"
| "appendChild p c (Elem i cs # ks) =
     (if i = p then Elem i (cs @ [c]) # ks
      else Elem i (appendChild p c cs) # appendChild p c ks)"

definition emptyStateElement :: element where
  "emptyStateElement =
     \<lparr>tagName = ''DIV'',
      classList = {''search-empty-state'', ''hidden'', ''text-center'', ''py-8'', ''px-4'',
                   ''text-secondary''},
      attributes = Map.empty, style = (\<lambda>_. [])\<rparr>"

definition emptyStateText :: element where
  "emptyStateText =
     \<lparr>tagName = ''P'', classList = {''text-sm''}, attributes = Map.empty, style = (\<lambda>_. [])\<rparr>"

definition searchEnv :: "page \<Rightarrow> nat \<Rightarrow> search_env" where
  "searchEnv st container =
     \<lparr>navItems = querySelectorAll st container (hasAttribute st ''data-nav-item''),
      sections = querySelectorAll st container (hasClass st ''nav-section''),
      emptyState = nextId st\<rparr>"

definition initSearch :: "string \<Rightarrow> (page \<Rightarrow> nat \<Rightarrow> bool) \<Rightarrow> page \<Rightarrow> page" where
  "initSearch searchInputId containerSelector st =
     (case getElementById st searchInputId of
        None \<Rightarrow> st
      | Some searchInput \<Rightarrow>
     (case document_querySelector st (containerSelector st) of
        None \<Rightarrow> st
      | Some container \<Rightarrow>
          (let env = searchEnv st container;
               nav = querySelector st container (hasClass st ''sidebar-nav'');
               e = nextId st;
               st1 = st\<lparr>nextId := e + 2,
                        objs := (objs st)(e := emptyStateElement, Suc e := emptyStateText)\<rparr>;
               st2 = (case nav of
                        None \<Rightarrow> st1
                      | Some n \<Rightarrow>
                          st1\<lparr>doc := appendChild n
                                 (Elem e [Elem (Suc e) [Text ''No matching lessons'']]) (doc st1)\<rparr>)
           in addEventListener (Node searchInput) ''input'' (SearchInput env) st2)))"


section \<open>Resizable sidebar\<close>

text \<open>
  Numbers. Pixel coordinates and widths are integers; \<^verbatim>\<open>parseInt(s, 10)\<close> yields an
  integer or \<open>NaN\<close>, here \<open>None\<close>. A comparison with \<open>NaN\<close> is false.
  \<^verbatim>\<open>parseInt\<close> skips leading white space, reads an optional sign and the longest run
  of decimal digits, and yields \<open>NaN\<close> when there is no digit.
\<close>

definition isDigit :: "char \<Rightarrow> bool" where
  "isDigit c = (48 \<le> (of_char c :: nat) \<and> (of_char c :: nat) \<le> 57)"

definition digitsValue :: "string \<Rightarrow> nat" where
  "digitsValue ds = foldl (\<lambda>a c. 10 * a + ((of_char c :: nat) - 48)) 0 ds"

definition parseInt :: "string \<Rightarrow> int option" where
  "parseInt s =
     (let s1 = dropWhile isSpace s;
          negative = (case s1 of [] \<Rightarrow> False | c # r \<Rightarrow> c = CHR ''-'');
          s2 = (case s1 of [] \<Rightarrow> [] | c # r \<Rightarrow> if c = CHR ''-'' \<or> c = CHR ''+'' then r else s1);
          ds = takeWhile isDigit s2
      in if ds = [] then None
         else Some (if negative then - int (digitsValue ds) else int (digitsValue ds)))"

definition num_ge :: "int option \<Rightarrow> int option \<Rightarrow> bool" where
  "num_ge a b = (case (a, b) of (Some x, Some y) \<Rightarrow> x \<ge> y | _ \<Rightarrow> False)"

definition num_le :: "int option \<Rightarrow> int option \<Rightarrow> bool" where
  "num_le a b = (case (a, b) of (Some x, Some y) \<Rightarrow> x \<le> y | _ \<Rightarrow> False)"

text \<open>The decimal text of a number, as a template literal prints it.\<close>

fun showNat :: "nat \<Rightarrow> string" where
  "showNat n =
     (if n < 10 then [''0123456789'' ! n]
      else showNat (n div 10) @ [''0123456789'' ! (n mod 10)])"

definition showInt :: "int \<Rightarrow> string" where
  "showInt i = (if i < 0 then CHR ''-'' # showNat (nat (- i)) else showNat (nat i))"

definition showNum :: "int option \<Rightarrow> string" where
  "showNum x = (case x of None \<Rightarrow> ''NaN'' | Some i \<Rightarrow> showInt i)"

definition updateGridColumns :: "nat \<Rightarrow> int option \<Rightarrow> page \<Rightarrow> page" where
  "updateGridColumns gridContainer sidebarWidth st =
     (if innerWidth st < 1024 then setStyle gridContainer ''gridTemplateColumns'' [] st
      else
        (let tocWidth = trim (rootStyle st ''--toc-width'')
         in setStyle gridContainer ''gridTemplateColumns''
              (showNum sidebarWidth @ ''px 1fr '' @ tocWidth) st))"

text \<open>
  The listeners of the drag. \<open>clientX\<close> is the pointer position of the event and
  \<open>offsetWidth\<close> the laid-out width of the sidebar at the time of the event.
\<close>

definition onMouseDown :: "nat \<Rightarrow> nat \<Rightarrow> int \<Rightarrow> int \<Rightarrow> page \<Rightarrow> bool \<times> page" where
  "onMouseDown sidebar gridContainer clientX offsetWidth st =
     (True,
      setStyle gridContainer ''transition'' ''grid-template-columns 0.05s ease-out''
        (setStyle (body st) ''userSelect'' ''none''
          (setStyle (body st) ''cursor'' ''col-resize''
            (st\<lparr>isResizing := True, startX := clientX, startWidth := offsetWidth\<rparr>))))"

definition onMouseMove :: "nat \<Rightarrow> nat \<Rightarrow> int \<Rightarrow> page \<Rightarrow> page" where
  "onMouseMove sidebar gridContainer clientX st =
     (if \<not> isResizing st then st
      else
        (let delta = clientX - startX st;
             newWidth = startWidth st + delta;
             minWidth = parseInt (rootStyle st ''--sidebar-width-min'');
             maxWidth = parseInt (rootStyle st ''--sidebar-width-max'')
         in if num_ge (Some newWidth) minWidth \<and> num_le (Some newWidth) maxWidth then
              (let st1 = setStyle sidebar ''width'' (showInt newWidth @ ''px'') st
               in if innerWidth st1 \<ge> 1024 then updateGridColumns gridContainer (Some newWidth) st1
                  else st1)
            else st))"

definition onMouseUp :: "string \<Rightarrow> nat \<Rightarrow> nat \<Rightarrow> int \<Rightarrow> page \<Rightarrow> page" where
  "onMouseUp widthKey sidebar gridContainer offsetWidth st =
     (if isResizing st then
        (let st1 = setStyle gridContainer ''transition'' []
                     (setStyle (body st) ''userSelect'' []
                       (setStyle (body st) ''cursor'' [] (st\<lparr>isResizing := False\<rparr>)))
         in st1\<lparr>localStorage := (localStorage st1)(widthKey \<mapsto> showInt offsetWidth)\<rparr>)
      else st)"

text \<open>
  \<^verbatim>\<open>initResizable()\<close>. The key of the stored width comes from the storage module,
  which is not part of the sources at hand: it is the parameter \<open>widthKey\<close>. The
  listener of the window's \<open>resize\<close> event is installed; its body (a debounced
  layout update) is not modelled.
\<close>

definition restoreWidth :: "string \<Rightarrow> nat \<Rightarrow> nat \<Rightarrow> page \<Rightarrow> page" where
  "restoreWidth widthKey sidebar gridContainer st =
     (case localStorage st widthKey of
        None \<Rightarrow> st
      | Some storedWidth \<Rightarrow>
          if storedWidth \<noteq> [] \<and> innerWidth st \<ge> 1024 then
            (let width = parseInt storedWidth;
                 minWidth = parseInt (rootStyle st ''--sidebar-width-min'');
                 maxWidth = parseInt (rootStyle st ''--sidebar-width-max'')
             in if num_ge width minWidth \<and> num_le width maxWidth then
                  updateGridColumns gridContainer width
                    (setStyle sidebar ''width'' (showNum width @ ''px'') st)
                else st)
          else st)"

definition initResizable :: "string \<Rightarrow> page \<Rightarrow> page" where
  "initResizable widthKey st =
     (if isInitialized st \<and> getElementById st ''left-sidebar-container'' \<noteq> None then st
      else
        (let container = getElementById st ''left-sidebar-container'';
             handle = (case container of
                         None \<Rightarrow> None
                       | Some c \<Rightarrow> querySelector st c (hasClass st ''resize-handle''));
             sidebar = getElementById st ''left-sidebar'';
             gridContainer = document_querySelector st (hasClass st ''app-body'')
         in case (container, handle, sidebar, gridContainer) of
              (Some c, Some h, Some sb, Some g) \<Rightarrow>
                (let st1 = setStyle g ''transition'' ''none'' (setStyle sb ''transition'' ''none'' st);
                     st2 = (if innerWidth st1 < 1024
                            then setStyle g ''gridTemplateColumns'' [] st1 else st1);
                     st3 = restoreWidth widthKey sb g st2;
                     st4 = st3\<lparr>animationFrames :=
                                 animationFrames st3 @ [RequestFrame (ClearTransitions sb g)],
                               isInitialized := True,
                               isResizing := False, startX := 0, startWidth := 0\<rparr>
                 in addEventListener Window ''resize'' (WindowResize sb g)
                      (addEventListener Document ''mouseup'' (ResizeMouseUp sb g)
                        (addEventListener Document ''mousemove'' (ResizeMouseMove sb g)
                          (addEventListener (Node h) ''mousedown'' (ResizeMouseDown sb g) st4))))
            | _ \<Rightarrow> st))"

section \<open>Example pages\<close>

text \<open>
  In the example pages every element of the document can take the focus.
  A page with nothing in it, and a page with a sidebar: a search input and a
  navigation with one static link, one expanded section of three links and one
  collapsed section of one link.
\<close>

definition page0 :: page where
  "page0 = \<lparr>doc = [], objs = (\<lambda>_. blank ''DIV''), nextId = 100, activeElement = None,
     listeners = [], localStorage = Map.empty, rootStyle = (\<lambda>_. []), innerWidth = 1280,
     body = 1, currentFocusedItem = None, globalKeydownHandler = None,
     navKeydownHandler = None, currentNav = None, isInitialized = False,
     isResizing = False, startX = 0, startWidth = 0, animationFrames = [],
     canFocus = (\<lambda>os d i. i \<in> set (elems d))\<rparr>"

definition withClasses :: "string \<Rightarrow> string set \<Rightarrow> element" where
  "withClasses tg cs = (blank tg)\<lparr>classList := cs\<rparr>"

definition navLink :: element where
  "navLink = (blank ''A'')\<lparr>classList := {''nav-item''}, attributes := [''data-nav-item'' \<mapsto> []]\<rparr>"

definition navDoc :: "node list" where
  "navDoc =
     [Elem 1
       [Elem 2
         [Elem 3 [],
          Elem 4
           [Elem 5 [Elem 6 [Text ''Home'']],
            Elem 7
             [Elem 8 [Text ''Basics''],
              Elem 9 [Text ''Intro''],
              Elem 10 [Text ''Setup''],
              Elem 11 [Text ''Advanced Setup'']],
            Elem 12
             [Elem 13 [Text ''Grammar''],
              Elem 14 [Text ''Verbs'']]]]]]"

definition navObjs :: "nat \<Rightarrow> element" where
  "navObjs =
     (\<lambda>_. blank ''DIV'')
       (1 := blank ''BODY'',
        2 := (withClasses ''DIV'' {''sidebar-content''})\<lparr>attributes := [''id'' \<mapsto> ''left-drawer'']\<rparr>,
        3 := (blank ''INPUT'')\<lparr>attributes := [''id'' \<mapsto> ''sidebar-search-mobile'']\<rparr>,
        4 := withClasses ''NAV'' {''sidebar-nav''},
        5 := blank ''DIV'',
        6 := navLink,
        7 := withClasses ''DIV'' {''nav-section'', ''expanded''},
        8 := withClasses ''BUTTON'' {''nav-section-header''},
        9 := navLink, 10 := navLink, 11 := navLink,
        12 := withClasses ''DIV'' {''nav-section''},
        13 := withClasses ''BUTTON'' {''nav-section-header''},
        14 := navLink)"

definition navPage :: page where
  "navPage = page0\<lparr>doc := navDoc, objs := navObjs\<rparr>"

text \<open>
  The example page after the keyboard module was initialised with the id of its search
  input, with the focus on an element: \<open>readyPage\<close> for the module with one global
  listener, \<open>readyPage'\<close> for the module with a global and a per-nav listener.
\<close>

definition readyPage :: "nat \<Rightarrow> page" where
  "readyPage a = (initKeyboardNavigation ''sidebar-search-mobile'' navPage)\<lparr>activeElement := Some a\<rparr>"

definition readyPage' :: "nat \<Rightarrow> page" where
  "readyPage' a = (initKeyboardNavigation' ''sidebar-search-mobile'' navPage)\<lparr>activeElement := Some a\<rparr>"

text \<open>
  A page with the sidebar twice, as a drawer and as a desktop sidebar, each with its
  search input and nav; the keyboard module is initialised with the id of the drawer's
  search input, as the entry point of the sidebar does, and the focus is on an element.
\<close>

definition twoNavDoc :: "node list" where
  "twoNavDoc =
     [Elem 1
       [Elem 2
         [Elem 3 [],
          Elem 4
           [Elem 5 [Elem 6 [Text ''Home'']],
            Elem 7
             [Elem 8 [Text ''Basics''],
              Elem 9 [Text ''Intro''],
              Elem 10 [Text ''Setup''],
              Elem 11 [Text ''Advanced Setup'']],
            Elem 12
             [Elem 13 [Text ''Grammar''],
              Elem 14 [Text ''Verbs'']]]],
        Elem 20
         [Elem 21 [],
          Elem 22
           [Elem 23 [Elem 24 [Text ''Home''], Elem 25 [Text ''About'']]]]]]"

definition twoNavObjs :: "nat \<Rightarrow> element" where
  "twoNavObjs =
     navObjs
       (20 := (withClasses ''ASIDE'' {''sidebar-content'', ''app-sidebar-left''})
                \<lparr>attributes := [''id'' \<mapsto> ''left-sidebar'']\<rparr>,
        21 := (blank ''INPUT'')\<lparr>attributes := [''id'' \<mapsto> ''sidebar-search-desktop'']\<rparr>,
        22 := withClasses ''NAV'' {''sidebar-nav''},
        23 := blank ''DIV'',
        24 := navLink, 25 := navLink)"

definition twoNavPage :: page where
  "twoNavPage = page0\<lparr>doc := twoNavDoc, objs := twoNavObjs\<rparr>"

definition twoNavReady :: "nat \<Rightarrow> page" where
  "twoNavReady a =
     (initKeyboardNavigation ''sidebar-search-mobile'' twoNavPage)\<lparr>activeElement := Some a\<rparr>"

definition twoNavReady' :: "nat \<Rightarrow> page" where
  "twoNavReady' a =
     (initKeyboardNavigation' ''sidebar-search-mobile'' twoNavPage)\<lparr>activeElement := Some a\<rparr>"

text \<open>
  A page with a checkbox beside the sidebar, and the example page with the search
  input under the id \<open>sidebar-search\<close>, the default of
  \<^verbatim>\<open>initKeyboardNavigation\<close>; and these pages after the keyboard module was
  initialised (the first by the module with one global listener, the second by the
  other module with its default id), with the focus on the checkbox and on the body.
\<close>

definition checkboxPage :: page where
  "checkboxPage =
     page0\<lparr>doc := [Elem 1 [Elem 2 [Elem 3 [], Elem 4 [Elem 5 [Elem 6 [Text ''Home'']]]],
                            Elem 15 []]],
           objs := navObjs(15 := (blank ''INPUT'')\<lparr>attributes := [''type'' \<mapsto> ''checkbox'']\<rparr>)\<rparr>"

definition defaultIdPage :: page where
  "defaultIdPage =
     navPage\<lparr>objs := navObjs(3 := (blank ''INPUT'')\<lparr>attributes := [''id'' \<mapsto> ''sidebar-search'']\<rparr>)\<rparr>"

definition checkboxReady :: page where
  "checkboxReady =
     (initKeyboardNavigation ''sidebar-search-mobile'' checkboxPage)\<lparr>activeElement := Some 15\<rparr>"

definition defaultIdReady' :: page where
  "defaultIdReady' =
     (initKeyboardNavigation' ''sidebar-search'' defaultIdPage)\<lparr>activeElement := Some 1\<rparr>"

text \<open>Externals that leave the page as it is, for the examples.\<close>

definition inertExternals :: externals where
  "inertExternals = \<lparr>click = (\<lambda>_ st. st), collapseCurrentSection = (\<lambda>_ st. st),
                      expandCurrentSection = (\<lambda>_ st. st)\<rparr>"

text \<open>A page in the middle of a drag of the resize handle.\<close>

definition dragPage :: page where
  "dragPage = page0\<lparr>rootStyle := (\<lambda>_. [])(''--sidebar-width-min'' := '' 200px'',
                                            ''--sidebar-width-max'' := '' 400px''),
                     isResizing := True, startX := 100, startWidth := 250\<rparr>"

text \<open>
  A page with a search input and a nav of two sections: a link \<open>Hola Mundo\<close>
  and a link whose text \<open>Adios\<close> lies in two text nodes, and a link
  \<open>Gracias\<close>. \<open>searchPage\<close> is this page after \<^verbatim>\<open>initSearch\<close>, and
  \<open>exampleEnv\<close> is what the input listener then closes over.
\<close>

definition searchDoc :: "node list" where
  "searchDoc =
     [Elem 1
       [Elem 2 [],
        Elem 3
         [Elem 4
           [Elem 5 [Text ''Hola Mundo''],
            Elem 6 [Elem 7 [Text ''Ad''], Text ''ios'']],
          Elem 8
           [Elem 9 [Text ''Gracias'']]]]]"

definition searchObjs :: "nat \<Rightarrow> element" where
  "searchObjs =
     (\<lambda>_. blank ''DIV'')
       (1 := (withClasses ''DIV'' {''sidebar-content''})\<lparr>attributes := [''id'' \<mapsto> ''left-drawer'']\<rparr>,
        2 := (blank ''INPUT'')\<lparr>attributes := [''id'' \<mapsto> ''sidebar-search-mobile'']\<rparr>,
        3 := withClasses ''NAV'' {''sidebar-nav''},
        4 := withClasses ''DIV'' {''nav-section'', ''expanded''},
        5 := navLink, 6 := navLink,
        7 := blank ''B'',
        8 := withClasses ''DIV'' {''nav-section'', ''expanded''},
        9 := navLink)"

definition searchPage0 :: page where
  "searchPage0 = page0\<lparr>doc := searchDoc, objs := searchObjs, nextId := 10\<rparr>"

definition exampleEnv :: search_env where
  "exampleEnv = searchEnv searchPage0 1"

definition searchPage :: page where
  "searchPage =
     initSearch ''sidebar-search-mobile'' (\<lambda>st i. getAttribute st ''id'' i = Some ''left-drawer'')
       searchPage0"

section \<open>The navigable set, as the specification words it\<close>

text \<open>
  A second definition of the navigable set, for comparison with
  \<open>getVisibleNavItems\<close>. It walks the document from the top and carries whether the
  container has been entered and which section encloses the current position most
  closely. Below the container, an element is kept when it is a nav item, is not
  search-hidden, and has no enclosing section or has an expanded one.
\<close>

fun navigable :: "page \<Rightarrow> nat \<Rightarrow> bool \<Rightarrow> nat option \<Rightarrow> node \<Rightarrow> nat list" where
  "navigable st c inside sec (Text s) = []"
| "navigable st c inside sec (Elem i ks) =
     (if inside \<and> hasAttribute st ''data-nav-item'' i \<and> \<not> hasClass st ''hidden'' i
         \<and> (case sec of None \<Rightarrow> True | Some s \<Rightarrow> hasClass st ''expanded'' s)
      then [i] else [])
     @ concat (map (navigable st c (inside \<or> i = c)
                      (if hasClass st ''nav-section'' i then Some i else sec)) ks)"

abbreviation shownItem :: "page \<Rightarrow> nat \<Rightarrow> bool" where
  "shownItem st i \<equiv> hasAttribute st ''data-nav-item'' i \<and> \<not> hasClass st ''hidden'' i"

definition navigableSet :: "page \<Rightarrow> nat \<Rightarrow> nat list" where
  "navigableSet st c = concat (map (navigable st c False None) (doc st))"

section \<open>The roving tabindex, as a property of a page\<close>

abbreviation activeItem :: "page \<Rightarrow> nat \<Rightarrow> nat option" where
  "activeItem st nav \<equiv>
     querySelector st nav (\<lambda>i. hasClass st ''nav-item'' i \<and> hasClass st ''active'' i)"

text \<open>
  \<open>chosenItem st nav\<close>: the item the initialisation makes tabbable, which is the
  active item of the nav when there is one and the first visible item otherwise.
  \<open>roving S st\<close>: exactly one element of the page has \<open>tabindex\<close> 0, the cursor
  variable names it, and every other element of \<open>S\<close> has \<open>tabindex\<close> -1.
  \<open>markerWithin st\<close>: no element other than the cursor element carries the focused
  marker. \<open>oneMarked st\<close>: exactly one element carries the focused marker, and the
  cursor variable names it. \<open>sameRoving st st'\<close>: the cursor variable, every
  \<open>tabindex\<close> and every focused marker are the same in both pages.
  \<open>rovingKept ext\<close>: the functions that are not part of the sources leave the
  cursor variable, every \<open>tabindex\<close> and every focused marker as they are.
\<close>

definition chosenItem :: "page \<Rightarrow> nat \<Rightarrow> nat option" where
  "chosenItem st nav =
     (case activeItem st nav of
        Some a \<Rightarrow> Some a
      | None \<Rightarrow> first_opt (getVisibleNavItems st nav))"

definition roving :: "nat set \<Rightarrow> page \<Rightarrow> bool" where
  "roving S st =
     (\<exists>c. currentFocusedItem st = Some c
          \<and> (\<forall>x. (getAttribute st ''tabindex'' x = Some ''0'') = (x = c))
          \<and> (\<forall>x \<in> S. x \<noteq> c \<longrightarrow> getAttribute st ''tabindex'' x = Some ''-1''))"

definition markerWithin :: "page \<Rightarrow> bool" where
  "markerWithin st =
     (\<forall>x. getAttribute st ''data-focused'' x \<noteq> None \<longrightarrow> currentFocusedItem st = Some x)"

definition oneMarked :: "page \<Rightarrow> bool" where
  "oneMarked st =
     (\<exists>c. currentFocusedItem st = Some c
          \<and> (\<forall>x. (getAttribute st ''data-focused'' x \<noteq> None) = (x = c)))"

definition sameRoving :: "page \<Rightarrow> page \<Rightarrow> bool" where
  "sameRoving st st' =
     (currentFocusedItem st' = currentFocusedItem st
      \<and> (\<forall>x. getAttribute st' ''tabindex'' x = getAttribute st ''tabindex'' x)
      \<and> (\<forall>x. getAttribute st' ''data-focused'' x = getAttribute st ''data-focused'' x))"

definition rovingKept :: "externals \<Rightarrow> bool" where
  "rovingKept ext =
     (\<forall>x st. sameRoving st (click ext x st)
            \<and> sameRoving st (collapseCurrentSection ext x st)
            \<and> sameRoving st (expandCurrentSection ext x st))"

text \<open>
  \<open>tabbed c items os\<close>: the element objects \<open>os\<close> with \<open>tabindex\<close> 0 written
  on \<open>c\<close> and \<open>tabindex\<close> -1 written on the other elements of \<open>items\<close>.
\<close>

definition withTabindex :: "string \<Rightarrow> element \<Rightarrow> element" where
  "withTabindex t e = e\<lparr>attributes := (attributes e)(''tabindex'' \<mapsto> t)\<rparr>"

definition tabbed :: "nat \<Rightarrow> nat list \<Rightarrow> (nat \<Rightarrow> element) \<Rightarrow> nat \<Rightarrow> element" where
  "tabbed c items os x =
     (if x = c then withTabindex ''0'' (os x)
      else if x \<in> set items then withTabindex ''-1'' (os x)
      else os x)"

text \<open>
  \<open>cursorWrites m st\<close>: the page after the attribute writes of a cursor move to
  \<open>m\<close>, before the focus is asked for: the previous cursor element, when it is
  another one, has \<open>tabindex\<close> -1 and no marker, and \<open>m\<close> has \<open>tabindex\<close> 0
  and the marker. \<open>cursorMovedTo st new st'\<close>: from \<open>st\<close> to \<open>st'\<close> the cursor
  has moved to \<open>new\<close>. The cursor variable names \<open>new\<close>, which has
  \<open>tabindex\<close> 0 and the focused marker; the element that held the cursor before,
  when it is another one, has \<open>tabindex\<close> -1 and no marker; every other element
  has the \<open>tabindex\<close> it had; and \<open>new\<close> holds the focus when it could take it,
  the focus being where it was otherwise.
\<close>

definition cursorWrites :: "nat \<Rightarrow> page \<Rightarrow> page" where
  "cursorWrites m st =
     setAttribute m ''data-focused'' ''true'' (setAttribute m ''tabindex'' ''0''
       (case currentFocusedItem st of
          Some c \<Rightarrow>
            if c \<noteq> m
            then removeAttribute c ''data-focused'' (setAttribute c ''tabindex'' ''-1'' st)
            else st
        | None \<Rightarrow> st))"

definition cursorMovedTo :: "page \<Rightarrow> nat \<Rightarrow> page \<Rightarrow> bool" where
  "cursorMovedTo st new st' =
     (currentFocusedItem st' = Some new
      \<and> getAttribute st' ''tabindex'' new = Some ''0''
      \<and> getAttribute st' ''data-focused'' new = Some ''true''
      \<and> (\<forall>c. currentFocusedItem st = Some c \<and> c \<noteq> new \<longrightarrow>
             getAttribute st' ''tabindex'' c = Some ''-1''
             \<and> getAttribute st' ''data-focused'' c = None)
      \<and> (\<forall>x. x \<noteq> new \<and> currentFocusedItem st \<noteq> Some x \<longrightarrow>
             getAttribute st' ''tabindex'' x = getAttribute st ''tabindex'' x)
      \<and> activeElement st' =
          (if focusable (cursorWrites new st) new then Some new else activeElement st))"

text \<open>
  \<open>within st i n\<close>: the element \<open>i\<close> of the document is \<open>n\<close> or lies below it.
  \<open>isTextInput\<close>: an \<open>input\<close> element of a type that takes text.
\<close>

definition within :: "page \<Rightarrow> nat \<Rightarrow> nat \<Rightarrow> bool" where
  "within st i n = (case map_of (chainsL [] (doc st)) i of None \<Rightarrow> False | Some ch \<Rightarrow> n \<in> set ch)"

definition isTextInput :: "page \<Rightarrow> nat \<Rightarrow> bool" where
  "isTextInput st i =
     (tagName (objs st i) = ''INPUT''
      \<and> (case getAttribute st ''type'' i of
            None \<Rightarrow> True
          | Some t \<Rightarrow> t \<in> set [''text'', ''search'', ''email'', ''url'', ''tel'', ''password'',
                              ''number'']))"

section \<open>Notions for the properties of the search\<close>

text \<open>
  A child list is normalized when it has no empty text node and no two adjacent text
  nodes, and the same holds below every element in it. This is what the HTML parser
  produces.
\<close>

fun normalized :: "node list \<Rightarrow> bool" where
  "normalized [] = True"
| "normalized (Text s # ks) =
     (s \<noteq> [] \<and> (case ks of Text t # r \<Rightarrow> False | _ \<Rightarrow> True) \<and> normalized ks)"
| "normalized (Elem i cs # ks) = (normalized cs \<and> normalized ks)"

text \<open>
  \<open>unmark n\<close> replaces every element with a reference from \<open>n\<close> on (the elements
  created after the page was loaded) by a text node with its text content.
\<close>

fun unmark :: "nat \<Rightarrow> node \<Rightarrow> node" where
  "unmark n (Text s) = Text s"
| "unmark n (Elem i cs) =
     (if n \<le> i then Text (textContent (Elem i cs)) else Elem i (map (unmark n) cs))"

text \<open>
  \<open>canon n ks\<close>: \<open>ks\<close> with the new elements replaced by their text and
  everything normalized. \<open>startsText ks\<close>: the first node of \<open>ks\<close> is a text node.
\<close>

definition canon :: "nat \<Rightarrow> node list \<Rightarrow> node list" where
  "canon n ks = mergeText (map (\<lambda>k. normalize (unmark n k)) ks)"

definition startsText :: "node list \<Rightarrow> bool" where
  "startsText ks = (case ks of Text t # r \<Rightarrow> True | _ \<Rightarrow> False)"

text \<open>
  \<open>contains s q\<close>: \<open>q\<close> occurs in \<open>s\<close>. \<open>firstSplit q s b mid a\<close>: the text
  \<open>s\<close> is \<open>b\<close>, \<open>mid\<close>, \<open>a\<close> in a row, \<open>mid\<close> is the query up to case, and
  the query does not occur in the lower-cased text before the position of \<open>mid\<close>.
  \<open>tx s\<close> is the text node for \<open>s\<close>, or nothing when \<open>s\<close> is empty.
\<close>

definition contains :: "string \<Rightarrow> string \<Rightarrow> bool" where
  "contains s q = (\<exists>pre post. s = pre @ q @ post)"

definition firstSplit :: "string \<Rightarrow> string \<Rightarrow> string \<Rightarrow> string \<Rightarrow> string \<Rightarrow> bool" where
  "firstSplit q s b mid a =
     (s = b @ mid @ a \<and> toLowerCase mid = q
      \<and> (\<forall>pre post. toLowerCase s = pre @ q @ post \<longrightarrow> length b \<le> length pre))"

definition tx :: "string \<Rightarrow> node list" where
  "tx s = (if s = [] then [] else [Text s])"

text \<open>
  \<open>highlighted D q n inside ks0 ks\<close>: the child list \<open>ks\<close> is the child list
  \<open>ks0\<close> of the page as loaded in which, inside the elements of \<open>D\<close> and only
  there, every text node whose lower-cased text contains \<open>q\<close> is replaced by the text
  before the first occurrence, a new element (a reference from \<open>n\<close> on) holding the
  occurrence, and the text after it. \<open>inside\<close> tells whether \<open>ks0\<close> itself lies
  inside an element of \<open>D\<close>.
\<close>

inductive highlighted :: "(nat \<Rightarrow> bool) \<Rightarrow> string \<Rightarrow> nat \<Rightarrow> bool \<Rightarrow> node list \<Rightarrow> node list \<Rightarrow> bool"
  for D :: "nat \<Rightarrow> bool" and q :: string and n :: nat where
  highlighted_Nil: "highlighted D q n inside [] []"
| highlighted_Text:
    "\<not> (inside \<and> contains (toLowerCase s) q) \<Longrightarrow> highlighted D q n inside ks ks'
     \<Longrightarrow> highlighted D q n inside (Text s # ks) (Text s # ks')"
| highlighted_Mark:
    "inside \<Longrightarrow> contains (toLowerCase s) q \<Longrightarrow> firstSplit q s b mid a \<Longrightarrow> n \<le> m
     \<Longrightarrow> highlighted D q n inside ks ks'
     \<Longrightarrow> highlighted D q n inside (Text s # ks) (tx b @ Elem m [Text mid] # tx a @ ks')"
| highlighted_Elem:
    "i < n \<Longrightarrow> highlighted D q n (inside \<or> D i) cs cs' \<Longrightarrow> highlighted D q n inside ks ks'
     \<Longrightarrow> highlighted D q n inside (Elem i cs # ks) (Elem i cs' # ks')"

text \<open>
  \<open>split n ks0 ks\<close>: \<open>ks\<close> is \<open>ks0\<close> with some text nodes split around a new
  element that holds a non-empty part of the text.
\<close>

inductive split :: "nat \<Rightarrow> node list \<Rightarrow> node list \<Rightarrow> bool" for n :: nat where
  split_Nil: "split n [] []"
| split_Text: "split n ks ks' \<Longrightarrow> split n (Text s # ks) (Text s # ks')"
| split_Mark: "split n ks ks' \<Longrightarrow> mid \<noteq> [] \<Longrightarrow> n \<le> m \<Longrightarrow>
     split n (Text (b @ mid @ a) # ks) (tx b @ Elem m [Text mid] # tx a @ ks')"
| split_Elem: "split n cs cs' \<Longrightarrow> split n ks ks' \<Longrightarrow> i < n \<Longrightarrow>
     split n (Elem i cs # ks) (Elem i cs' # ks')"

text \<open>
  What is rendered: the document with every element reference replaced by the element
  object it stands for.
\<close>

datatype rendered = RText string | RElem element "rendered list"

fun render :: "(nat \<Rightarrow> element) \<Rightarrow> node \<Rightarrow> rendered" where
  "render os (Text s) = RText s"
| "render os (Elem i ks) = RElem (os i) (map (render os) ks)"

text \<open>
  \<open>descendants st i\<close>: the elements below the element \<open>i\<close> of the document.
  \<open>textsL ks\<close>: the text nodes in and below the child list \<open>ks\<close>, in document
  order. \<open>textNodesOf st i\<close>: the text nodes below the element \<open>i\<close>.
\<close>

definition descendants :: "page \<Rightarrow> nat \<Rightarrow> nat list" where
  "descendants st i = (case childNodes (doc st) i of None \<Rightarrow> [] | Some cs \<Rightarrow> elems cs)"

fun texts :: "node \<Rightarrow> string list" where
  "texts (Text s) = [s]"
| "texts (Elem i ks) = concat (map texts ks)"

definition textsL :: "node list \<Rightarrow> string list" where
  "textsL ks = concat (map texts ks)"


text \<open>
  A page as loaded, with a search instance on it: the document is normalized, every
  element object occurs once and was allocated before, no element carries the class
  \<open>search-highlight\<close>; the instance's items are distinct elements of the document,
  no item lies inside another item; its sections are elements of the document, and its
  sections and its empty-state element were allocated before and are not nav items.
\<close>

definition pristine :: "search_env \<Rightarrow> page \<Rightarrow> bool" where
  "pristine env st =
     (normalized (doc st) \<and> distinct (elems (doc st))
      \<and> (\<forall>i \<in> set (elems (doc st)). i < nextId st \<and> \<not> hasClass st ''search-highlight'' i)
      \<and> distinct (navItems env)
      \<and> set (navItems env) \<subseteq> set (elems (doc st))
      \<and> set (sections env) \<subseteq> set (elems (doc st))
      \<and> (\<forall>i \<in> set (navItems env). i < nextId st
            \<and> set (descendants st i) \<inter> set (navItems env) = {})
      \<and> (\<forall>s \<in> set (sections env). s < nextId st \<and> s \<notin> set (navItems env)
            \<and> \<not> hasAttribute st ''data-nav-item'' s)
      \<and> emptyState env < nextId st \<and> emptyState env \<notin> set (navItems env)
      \<and> emptyState env \<notin> set (sections env)
      \<and> \<not> hasAttribute st ''data-nav-item'' (emptyState env))"

text \<open>The page after the input events with the values \<open>vs\<close>, in this order.\<close>

definition afterInputs :: "search_env \<Rightarrow> string list \<Rightarrow> page \<Rightarrow> page" where
  "afterInputs env vs st = foldl (\<lambda>s v. onInput env v s) st vs"

text \<open>
  \<open>noNesting P ks\<close>: below an element of \<open>ks\<close> that satisfies \<open>P\<close> no element
  satisfies \<open>P\<close>.
\<close>

definition noNesting :: "(nat \<Rightarrow> bool) \<Rightarrow> node list \<Rightarrow> bool" where
  "noNesting P ks = (\<forall>(i, cs) \<in> set (subtreesL ks). P i \<longrightarrow> (\<forall>j \<in> set (elems cs). \<not> P j))"

text \<open>
  The outcome of an input event, described from the page as loaded. \<open>matches\<close>: the
  item's full text content contains the query, case-insensitively. \<open>withHidden h e\<close>
  is the element object \<open>e\<close> with the class \<open>hidden\<close> present iff \<open>h\<close>.
  \<open>shownAfter\<close>: the element is a nav item that is not hidden after the event (an
  item of the instance when it matches, any other nav item when it was not hidden).
  \<open>objsAfter\<close> gives every element object after an event with the non-empty query
  \<open>q\<close>: an item of the instance is hidden iff it does not match, a section iff no
  nav item below it is shown, the empty-state element iff some item matches, and every
  other object is as it was. \<open>objsCleared\<close> is the same for the empty query.
\<close>

definition matches :: "page \<Rightarrow> string \<Rightarrow> nat \<Rightarrow> bool" where
  "matches st0 q i = contains (toLowerCase (textContentOf st0 i)) q"

definition withHidden :: "bool \<Rightarrow> element \<Rightarrow> element" where
  "withHidden h e =
     e\<lparr>classList := (if h then insert ''hidden'' (classList e) else classList e - {''hidden''})\<rparr>"

definition shownAfter :: "search_env \<Rightarrow> string \<Rightarrow> page \<Rightarrow> nat \<Rightarrow> bool" where
  "shownAfter env q st0 i =
     (hasAttribute st0 ''data-nav-item'' i
      \<and> (if i \<in> set (navItems env) then matches st0 q i else \<not> hasClass st0 ''hidden'' i))"

definition objsAfter :: "search_env \<Rightarrow> string \<Rightarrow> page \<Rightarrow> nat \<Rightarrow> element" where
  "objsAfter env q st0 i =
     (if i \<in> set (navItems env) then withHidden (\<not> matches st0 q i) (objs st0 i)
      else if i \<in> set (sections env)
        then withHidden (filter (shownAfter env q st0) (descendants st0 i) = []) (objs st0 i)
      else if i = emptyState env
        then withHidden (\<exists>j \<in> set (navItems env). matches st0 q j) (objs st0 i)
      else objs st0 i)"

definition objsCleared :: "search_env \<Rightarrow> page \<Rightarrow> nat \<Rightarrow> element" where
  "objsCleared env st0 i =
     (if i \<in> set (navItems env) \<or> i \<in> set (sections env) then withHidden False (objs st0 i)
      else if i = emptyState env then withHidden True (objs st0 i)
      else objs st0 i)"

text \<open>
  \<open>tracked env st0 st\<close>: what holds of every page \<open>st\<close> reached from the page
  \<open>st0\<close> as loaded by input events. The document is that of \<open>st0\<close> with some
  text nodes split around new elements; every element object occurs once; the new
  element objects are \<open>mark\<close> elements with the class \<open>search-highlight\<close>; the
  items, sections and empty-state element of the instance are as in \<open>st0\<close> up to
  the class \<open>hidden\<close>, and every other old element object is as in \<open>st0\<close>.
\<close>

definition sameButHidden :: "element \<Rightarrow> element \<Rightarrow> bool" where
  "sameButHidden a b = (withHidden False a = withHidden False b)"

definition tracked :: "search_env \<Rightarrow> page \<Rightarrow> page \<Rightarrow> bool" where
  "tracked env st0 st =
     (split (nextId st0) (doc st0) (doc st)
      \<and> distinct (elems (doc st))
      \<and> (\<forall>i \<in> set (elems (doc st)). i < nextId st)
      \<and> nextId st0 \<le> nextId st
      \<and> (\<forall>i. nextId st0 \<le> i \<and> i < nextId st \<longrightarrow> objs st i = markElement)
      \<and> (\<forall>i. i < nextId st0 \<longrightarrow>
            (if i \<in> set (navItems env) \<or> i \<in> set (sections env) \<or> i = emptyState env
             then sameButHidden (objs st i) (objs st0 i)
             else objs st i = objs st0 i)))"

text \<open>
  \<open>itemsDone st0 st1 q xs r\<close>: the loop over the items, started on the page \<open>st1\<close>
  with the flag \<^verbatim>\<open>hasVisibleItems\<close> unset, has the flag and the page \<open>r\<close> after the
  items \<open>xs\<close>. The matching items among \<open>xs\<close> are highlighted, the flag tells
  whether there is one, the elements created are \<open>mark\<close> elements, and an item of
  \<open>xs\<close> is hidden iff it does not match.
\<close>

definition itemsDone :: "page \<Rightarrow> page \<Rightarrow> string \<Rightarrow> nat list \<Rightarrow> bool \<times> page \<Rightarrow> bool" where
  "itemsDone st0 st1 q xs r =
     (highlighted (\<lambda>i. i \<in> set xs \<and> matches st0 q i) q (nextId st0) False (doc st0) (doc (snd r))
      \<and> fst r = (\<exists>i \<in> set xs. matches st0 q i)
      \<and> distinct (elems (doc (snd r)))
      \<and> set (elems (doc (snd r))) = set (elems (doc st0)) \<union> {nextId st1 ..< nextId (snd r)}
      \<and> nextId st1 \<le> nextId (snd r)
      \<and> objs (snd r) =
          (\<lambda>i. if nextId st1 \<le> i \<and> i < nextId (snd r) then markElement
               else if i \<in> set xs then withHidden (\<not> matches st0 q i) (objs st1 i)
               else objs st1 i))"

section \<open>Facts used by the examples\<close>

lemmas example_defs = navPage_def page0_def navDoc_def navObjs_def navLink_def withClasses_def
  blank_def dragPage_def inertExternals_def

lemmas dom_defs = hasClass_def hasAttribute_def getAttribute_def querySelectorAll_def
  querySelector_def document_querySelectorAll_def document_querySelector_def getElementById_def
  closest_def childNodes_def subtreesL_def elems_def chainsL_def first_opt_def last_opt_def

lemmas number_defs = parseInt_def isSpace_def isDigit_def digitsValue_def num_ge_def num_le_def
  showInt_def showNum_def

lemma navPage_items: "getVisibleNavItems navPage 4 = [6, 9, 10, 11]"
  by code_simp

lemma navPage_active: "activeItem navPage 4 = None"
  by code_simp

section \<open>The resize drag\<close>

lemma onMouseMove_rejected:
  "\<not> (num_ge (Some (startWidth st + (x - startX st))) (parseInt (rootStyle st ''--sidebar-width-min''))
      \<and> num_le (Some (startWidth st + (x - startX st))) (parseInt (rootStyle st ''--sidebar-width-max'')))
   \<Longrightarrow> onMouseMove sb g x st = st"
  by (auto simp add: onMouseMove_def Let_def)

lemma onMouseMove_applied:
  "onMouseMove sb g x st \<noteq> st \<Longrightarrow>
     isResizing st
     \<and> style (objs (onMouseMove sb g x st) sb) ''width''
         = showInt (startWidth st + (x - startX st)) @ ''px''"
  by (auto simp add: onMouseMove_def Let_def setStyle_def updateGridColumns_def split: if_splits)

lemma onMouseMove_frame:
  "rootStyle (onMouseMove sb g x st) = rootStyle st"
  "isResizing (onMouseMove sb g x st) = isResizing st"
  "startX (onMouseMove sb g x st) = startX st"
  "startWidth (onMouseMove sb g x st) = startWidth st"
  by (auto simp add: onMouseMove_def Let_def setStyle_def updateGridColumns_def split: if_splits)

lemma onMouseMove_only_objs:
  "onMouseMove sb g x st = st\<lparr>objs := objs (onMouseMove sb g x st)\<rparr>"
  by (auto simp add: onMouseMove_def Let_def setStyle_def updateGridColumns_def split: if_splits)

lemma drag_width:
  assumes "parseInt (rootStyle st ''--sidebar-width-min'') = lo"
      and "parseInt (rootStyle st ''--sidebar-width-max'') = hi"
  shows "style (objs (foldl (\<lambda>s x. onMouseMove sb g x s) st xs) sb) ''width''
           = style (objs st sb) ''width''
       \<or> (\<exists>w. num_ge (Some w) lo \<and> num_le (Some w) hi
             \<and> style (objs (foldl (\<lambda>s x. onMouseMove sb g x s) st xs) sb) ''width''
                 = showInt w @ ''px'')"
proof (induction xs rule: rev_induct)
  case Nil
  show ?case by simp
next
  case (snoc x xs)
  let ?s = "foldl (\<lambda>s x. onMouseMove sb g x s) st xs"
  have root: "rootStyle ?s = rootStyle st"
    by (induction xs rule: rev_induct) (simp_all add: onMouseMove_frame)
  show ?case
  proof (cases "onMouseMove sb g x ?s = ?s")
    case True
    with snoc show ?thesis by simp
  next
    case False
    have w: "style (objs (onMouseMove sb g x ?s) sb) ''width''
               = showInt (startWidth ?s + (x - startX ?s)) @ ''px''"
      using onMouseMove_applied [OF False] by simp
    have "num_ge (Some (startWidth ?s + (x - startX ?s))) lo
          \<and> num_le (Some (startWidth ?s + (x - startX ?s))) hi"
      using False onMouseMove_rejected [of ?s x sb g] root assms by auto
    with w show ?thesis by auto
  qed
qed

text \<open>
  Claim C8. A \<open>mousemove\<close> during a drag changes nothing but element styles. When it
  changes the page, a drag is going on, both bounds parsed to numbers, the candidate
  width (start width plus pointer delta) lies between them, and the sidebar's width
  is that candidate in pixels. When a bound does not parse, the page is unchanged.
  After any sequence of \<open>mousemove\<close> events the sidebar's width is the one before
  the sequence or a width between the bounds.
\<close>

theorem mousemove_within_bounds:
  "onMouseMove sb g x st = st\<lparr>objs := objs (onMouseMove sb g x st)\<rparr>
   \<and> (onMouseMove sb g x st \<noteq> st \<longrightarrow>
        isResizing st
        \<and> (\<exists>lo hi. parseInt (rootStyle st ''--sidebar-width-min'') = Some lo
              \<and> parseInt (rootStyle st ''--sidebar-width-max'') = Some hi
              \<and> lo \<le> startWidth st + (x - startX st) \<and> startWidth st + (x - startX st) \<le> hi)
        \<and> style (objs (onMouseMove sb g x st) sb) ''width''
            = showInt (startWidth st + (x - startX st)) @ ''px'')
   \<and> (parseInt (rootStyle st ''--sidebar-width-min'') = None
        \<or> parseInt (rootStyle st ''--sidebar-width-max'') = None
       \<longrightarrow> onMouseMove sb g x st = st)
   \<and> (style (objs (foldl (\<lambda>s x. onMouseMove sb g x s) st xs) sb) ''width''
         = style (objs st sb) ''width''
       \<or> (\<exists>w lo hi. parseInt (rootStyle st ''--sidebar-width-min'') = Some lo
              \<and> parseInt (rootStyle st ''--sidebar-width-max'') = Some hi
              \<and> lo \<le> w \<and> w \<le> hi
              \<and> style (objs (foldl (\<lambda>s x. onMouseMove sb g x s) st xs) sb) ''width''
                  = showInt w @ ''px''))"
proof -
  have a: "onMouseMove sb g x st = st\<lparr>objs := objs (onMouseMove sb g x st)\<rparr>"
    by (rule onMouseMove_only_objs)
  have b: "onMouseMove sb g x st \<noteq> st \<longrightarrow>
        isResizing st
        \<and> (\<exists>lo hi. parseInt (rootStyle st ''--sidebar-width-min'') = Some lo
              \<and> parseInt (rootStyle st ''--sidebar-width-max'') = Some hi
              \<and> lo \<le> startWidth st + (x - startX st) \<and> startWidth st + (x - startX st) \<le> hi)
        \<and> style (objs (onMouseMove sb g x st) sb) ''width''
            = showInt (startWidth st + (x - startX st)) @ ''px''"
  proof
    assume ne: "onMouseMove sb g x st \<noteq> st"
    have "num_ge (Some (startWidth st + (x - startX st))) (parseInt (rootStyle st ''--sidebar-width-min''))
        \<and> num_le (Some (startWidth st + (x - startX st))) (parseInt (rootStyle st ''--sidebar-width-max''))"
      using ne onMouseMove_rejected [of st x sb g] by blast
    then have "\<exists>lo hi. parseInt (rootStyle st ''--sidebar-width-min'') = Some lo
              \<and> parseInt (rootStyle st ''--sidebar-width-max'') = Some hi
              \<and> lo \<le> startWidth st + (x - startX st) \<and> startWidth st + (x - startX st) \<le> hi"
      by (auto simp add: num_ge_def num_le_def split: option.splits)
    with onMouseMove_applied [OF ne]
    show "isResizing st
        \<and> (\<exists>lo hi. parseInt (rootStyle st ''--sidebar-width-min'') = Some lo
              \<and> parseInt (rootStyle st ''--sidebar-width-max'') = Some hi
              \<and> lo \<le> startWidth st + (x - startX st) \<and> startWidth st + (x - startX st) \<le> hi)
        \<and> style (objs (onMouseMove sb g x st) sb) ''width''
            = showInt (startWidth st + (x - startX st)) @ ''px''"
      by blast
  qed
  have c: "parseInt (rootStyle st ''--sidebar-width-min'') = None
        \<or> parseInt (rootStyle st ''--sidebar-width-max'') = None
       \<longrightarrow> onMouseMove sb g x st = st"
    using onMouseMove_rejected [of st x sb g] by (auto simp add: num_ge_def num_le_def)
  have d: "style (objs (foldl (\<lambda>s x. onMouseMove sb g x s) st xs) sb) ''width''
         = style (objs st sb) ''width''
       \<or> (\<exists>w lo hi. parseInt (rootStyle st ''--sidebar-width-min'') = Some lo
              \<and> parseInt (rootStyle st ''--sidebar-width-max'') = Some hi
              \<and> lo \<le> w \<and> w \<le> hi
              \<and> style (objs (foldl (\<lambda>s x. onMouseMove sb g x s) st xs) sb) ''width''
                  = showInt w @ ''px'')"
    using drag_width [OF refl refl, of sb g st xs]
    by (auto simp add: num_ge_def num_le_def split: option.splits)
  from a b c d show ?thesis by blast
qed

theorem mousemove_within_bounds_witness:
  "onMouseMove 1 2 150 dragPage \<noteq> dragPage
   \<and> parseInt (rootStyle dragPage ''--sidebar-width-min'') = Some 200
   \<and> parseInt (rootStyle dragPage ''--sidebar-width-max'') = Some 400
   \<and> style (objs (onMouseMove 1 2 150 dragPage) 1) ''width'' = ''300px''
   \<and> parseInt (rootStyle page0 ''--sidebar-width-min'') = None
   \<and> onMouseMove 1 2 150 (page0\<lparr>isResizing := True\<rparr>) = page0\<lparr>isResizing := True\<rparr>"
proof -
  have ne: "style (objs (onMouseMove 1 2 150 dragPage) 1) ''width'' \<noteq> style (objs dragPage 1) ''width''"
    by (simp add: onMouseMove_def example_defs number_defs Let_def setStyle_def updateGridColumns_def)
  then have "onMouseMove 1 2 150 dragPage \<noteq> dragPage"
    by auto
  moreover have "parseInt (rootStyle page0 ''--sidebar-width-min'') = None"
    by (simp add: example_defs number_defs)
  ultimately show ?thesis
    using mousemove_within_bounds [of 1 2 150 dragPage "[]"]
      mousemove_within_bounds [of 1 2 150 "page0\<lparr>isResizing := True\<rparr>" "[]"]
    by (simp add: example_defs number_defs)
qed

section \<open>Initialisation without the elements it needs\<close>

lemma initKeyboardNavigation_no_nav:
  "findNav st (getElementById st sid) = None \<Longrightarrow> initKeyboardNavigation sid st = st"
  by (simp add: initKeyboardNavigation_def)

lemma initKeyboardNavigation'_no_nav:
  "findNav st (getElementById st sid) = None \<Longrightarrow> initKeyboardNavigation' sid st = st"
  by (simp add: initKeyboardNavigation'_def)

lemma findNav_absent:
  "x = None \<or> (\<exists>s. x = Some s \<and> closest st (hasClass st ''sidebar-content'') s = None)
        \<or> (\<exists>s c. x = Some s
              \<and> closest st (hasClass st ''sidebar-content'') s = Some c
              \<and> querySelector st c (hasClass st ''sidebar-nav'') = None)
   \<Longrightarrow> findNav st x = None"
  by (auto simp add: findNav_def)

text \<open>
  Claim C9. \<^verbatim>\<open>initSearch\<close> returns the page unchanged when the search input or the
  container is absent; \<^verbatim>\<open>initKeyboardNavigation\<close> (in both keyboard modules) when the
  search input, its \<open>.sidebar-content\<close> ancestor or the \<open>.sidebar-nav\<close> below it
  is absent; \<^verbatim>\<open>initResizable\<close> when the sidebar container, the handle in it, the
  sidebar or the grid container is absent. Unchanged means the whole page: document,
  element objects, listeners, storage and module variables.
\<close>

theorem init_without_elements:
  "(getElementById st sid = None \<or> document_querySelector st (sel st) = None
      \<longrightarrow> initSearch sid sel st = st)
   \<and> ((getElementById st sid = None
        \<or> (\<exists>s. getElementById st sid = Some s
              \<and> closest st (hasClass st ''sidebar-content'') s = None)
        \<or> (\<exists>s c. getElementById st sid = Some s
              \<and> closest st (hasClass st ''sidebar-content'') s = Some c
              \<and> querySelector st c (hasClass st ''sidebar-nav'') = None))
      \<longrightarrow> initKeyboardNavigation sid st = st \<and> initKeyboardNavigation' sid st = st)
   \<and> ((getElementById st ''left-sidebar-container'' = None
        \<or> (\<exists>c. getElementById st ''left-sidebar-container'' = Some c
              \<and> querySelector st c (hasClass st ''resize-handle'') = None)
        \<or> getElementById st ''left-sidebar'' = None
        \<or> document_querySelector st (hasClass st ''app-body'') = None)
      \<longrightarrow> initResizable widthKey st = st)"
proof -
  have a: "getElementById st sid = None \<or> document_querySelector st (sel st) = None
      \<longrightarrow> initSearch sid sel st = st"
    by (auto simp add: initSearch_def split: option.splits)
  have b: "(getElementById st sid = None
        \<or> (\<exists>s. getElementById st sid = Some s
              \<and> closest st (hasClass st ''sidebar-content'') s = None)
        \<or> (\<exists>s c. getElementById st sid = Some s
              \<and> closest st (hasClass st ''sidebar-content'') s = Some c
              \<and> querySelector st c (hasClass st ''sidebar-nav'') = None))
      \<longrightarrow> initKeyboardNavigation sid st = st \<and> initKeyboardNavigation' sid st = st"
    using findNav_absent [of "getElementById st sid" st]
      initKeyboardNavigation_no_nav [of st sid] initKeyboardNavigation'_no_nav [of st sid]
    by blast
  have c: "(getElementById st ''left-sidebar-container'' = None
        \<or> (\<exists>c. getElementById st ''left-sidebar-container'' = Some c
              \<and> querySelector st c (hasClass st ''resize-handle'') = None)
        \<or> getElementById st ''left-sidebar'' = None
        \<or> document_querySelector st (hasClass st ''app-body'') = None)
      \<longrightarrow> initResizable widthKey st = st"
    by (auto simp add: initResizable_def Let_def split: option.splits)
  from a b c show ?thesis by blast
qed

theorem init_without_elements_witness:
  "getElementById navPage ''sidebar-search-desktop'' = None
   \<and> initSearch ''sidebar-search-desktop'' (\<lambda>st. hasClass st ''sidebar-content'') navPage = navPage
   \<and> initKeyboardNavigation ''sidebar-search-desktop'' navPage = navPage
   \<and> initKeyboardNavigation' ''sidebar-search-desktop'' navPage = navPage
   \<and> getElementById navPage ''left-sidebar-container'' = None
   \<and> initResizable ''sidebar-width'' navPage = navPage"
proof -
  have "getElementById navPage ''sidebar-search-desktop'' = None"
    by (simp add: example_defs dom_defs)
  moreover have "getElementById navPage ''left-sidebar-container'' = None"
    by (simp add: example_defs dom_defs)
  ultimately show ?thesis
    using init_without_elements [of navPage "''sidebar-search-desktop''"
        "\<lambda>st. hasClass st ''sidebar-content''" "''sidebar-width''"]
    by simp
qed


section \<open>Documents as forests\<close>

lemma forest_induct [case_names Nil Text Elem]:
  assumes "P []"
      and "\<And>s ks. P ks \<Longrightarrow> P (Text s # ks)"
      and "\<And>i cs ks. P cs \<Longrightarrow> P ks \<Longrightarrow> P (Elem i cs # ks)"
  shows "P ks"
proof (induction "size_list size ks" arbitrary: ks rule: less_induct)
  case less
  show ?case
  proof (cases ks)
    case Nil
    then show ?thesis using assms(1) by simp
  next
    case (Cons k rest)
    show ?thesis
    proof (cases k)
      case (Text s)
      have "P rest" by (rule less) (simp add: Cons)
      then show ?thesis using assms(2) Cons Text by simp
    next
      case (Elem i cs)
      have "P rest" by (rule less) (simp add: Cons)
      moreover have "P cs" by (rule less) (simp add: Cons Elem)
      ultimately show ?thesis using assms(3) Cons Elem by simp
    qed
  qed
qed

lemma chainsL_simps [simp]:
  "chainsL up [] = []"
  "chainsL up (Text s # ks) = chainsL up ks"
  "chainsL up (Elem i cs # ks) = (i, i # up) # chainsL (i # up) cs @ chainsL up ks"
  by (simp_all add: chainsL_def)

lemma subtreesL_simps [simp]:
  "subtreesL [] = []"
  "subtreesL (Text s # ks) = subtreesL ks"
  "subtreesL (Elem i cs # ks) = (i, cs) # subtreesL cs @ subtreesL ks"
  by (simp_all add: subtreesL_def)

lemma elems_simps [simp]:
  "elems [] = []"
  "elems (Text s # ks) = elems ks"
  "elems (Elem i cs # ks) = i # elems cs @ elems ks"
  by (simp_all add: elems_def)

lemma fst_chainsL: "map fst (chainsL up ks) = elems ks"
  by (induction ks arbitrary: up rule: forest_induct) simp_all

lemma fst_subtreesL: "map fst (subtreesL ks) = elems ks"
  by (simp add: elems_def)

lemma chain_shape:
  "(i, ch) \<in> set (chainsL up ks) \<Longrightarrow>
     \<exists>mid. ch = i # mid @ up \<and> set mid \<subseteq> set (elems ks)"
proof (induction ks arbitrary: up rule: forest_induct)
  case Nil
  then show ?case by simp
next
  case (Text s ks)
  then show ?case by simp
next
  case (Elem j cs ks)
  from Elem.prems consider "i = j \<and> ch = j # up" | "(i, ch) \<in> set (chainsL (j # up) cs)"
    | "(i, ch) \<in> set (chainsL up ks)" by auto
  then show ?case
  proof cases
    case 1
    then show ?thesis by simp
  next
    case 2
    from Elem.IH(1) [OF 2] obtain mid where "ch = i # mid @ j # up" "set mid \<subseteq> set (elems cs)"
      by blast
    then have "ch = i # (mid @ [j]) @ up \<and> set (mid @ [j]) \<subseteq> set (elems (Elem j cs # ks))"
      by auto
    then show ?thesis by blast
  next
    case 3
    from Elem.IH(2) [OF 3] obtain mid where "ch = i # mid @ up" "set mid \<subseteq> set (elems ks)"
      by blast
    then have "ch = i # mid @ up \<and> set mid \<subseteq> set (elems (Elem j cs # ks))"
      by auto
    then show ?thesis by blast
  qed
qed

lemma map_of_chainsL:
  "distinct (elems ks) \<Longrightarrow> (i, ch) \<in> set (chainsL up ks) \<Longrightarrow> map_of (chainsL up ks) i = Some ch"
  by (rule map_of_is_SomeI) (simp_all add: fst_chainsL)

lemma navigable_as_filter:
  "concat (map (navigable st c (c \<in> set up) (List.find (hasClass st ''nav-section'') up)) ks)
   = map fst (filter (\<lambda>(i, ch). c \<in> set (tl ch) \<and> shownItem st i
         \<and> (case List.find (hasClass st ''nav-section'') (tl ch) of
               None \<Rightarrow> True | Some s \<Rightarrow> hasClass st ''expanded'' s)) (chainsL up ks))"
proof (induction ks arbitrary: up rule: forest_induct)
  case Nil
  show ?case by simp
next
  case (Text s ks)
  then show ?case by simp
next
  case (Elem i cs ks)
  have kids: "(c \<in> set up \<or> i = c) = (c \<in> set (i # up))" by auto
  have sec: "(if hasClass st ''nav-section'' i then Some i else List.find (hasClass st ''nav-section'') up)
             = List.find (hasClass st ''nav-section'') (i # up)" by simp
  show ?case
    using Elem.IH(1) [of "i # up"] Elem.IH(2) [of up]
    unfolding kids [symmetric] sec [symmetric]
    by simp
qed


lemma filter_inside_all:
  "c \<in> set up \<Longrightarrow> filter (\<lambda>(i, ch). c \<in> set (tl ch)) (chainsL up ks) = chainsL up ks"
proof -
  assume c: "c \<in> set up"
  have "\<forall>p \<in> set (chainsL up ks). (\<lambda>(i, ch). c \<in> set (tl ch)) p"
  proof
    fix p assume "p \<in> set (chainsL up ks)"
    moreover obtain i ch where "p = (i, ch)" by (cases p)
    ultimately have p: "p = (i, ch)" "(i, ch) \<in> set (chainsL up ks)" by simp_all
    from chain_shape [OF p(2)] obtain mid where "ch = i # mid @ up" by blast
    with c p show "(\<lambda>(i, ch). c \<in> set (tl ch)) p" by simp
  qed
  then show ?thesis by (simp add: filter_id_conv)
qed

lemma filter_inside_none:
  "c \<notin> set up \<Longrightarrow> c \<notin> set (elems ks) \<Longrightarrow>
     filter (\<lambda>(i, ch). c \<in> set (tl ch)) (chainsL up ks) = []"
proof -
  assume c: "c \<notin> set up" "c \<notin> set (elems ks)"
  have "\<forall>p \<in> set (chainsL up ks). \<not> (\<lambda>(i, ch). c \<in> set (tl ch)) p"
  proof
    fix p assume "p \<in> set (chainsL up ks)"
    moreover obtain i ch where "p = (i, ch)" by (cases p)
    ultimately have p: "p = (i, ch)" "(i, ch) \<in> set (chainsL up ks)" by simp_all
    from chain_shape [OF p(2)] obtain mid where "ch = i # mid @ up" "set mid \<subseteq> set (elems ks)"
      by blast
    with c p show "\<not> (\<lambda>(i, ch). c \<in> set (tl ch)) p" by auto
  qed
  then show ?thesis by (simp add: filter_empty_conv)
qed

lemma map_of_subtreesL_None: "c \<notin> set (elems ks) \<Longrightarrow> map_of (subtreesL ks) c = None"
  by (simp add: map_of_eq_None_iff fst_subtreesL [symmetric] del: fst_subtreesL)

lemma descendants_by_chain:
  "distinct (elems ks) \<Longrightarrow> c \<notin> set up \<Longrightarrow>
     map fst (filter (\<lambda>(i, ch). c \<in> set (tl ch)) (chainsL up ks))
       = (case map_of (subtreesL ks) c of None \<Rightarrow> [] | Some cs \<Rightarrow> elems cs)"
proof (induction ks arbitrary: up rule: forest_induct)
  case Nil
  show ?case by simp
next
  case (Text s ks)
  then show ?case by simp
next
  case (Elem j cs ks)
  from Elem.prems have d: "distinct (elems cs)" "distinct (elems ks)" "j \<notin> set (elems cs)"
      "j \<notin> set (elems ks)" "set (elems cs) \<inter> set (elems ks) = {}"
    by auto
  show ?case
  proof (cases "j = c")
    case True
    have "filter (\<lambda>(i, ch). c \<in> set (tl ch)) (chainsL (c # up) cs) = chainsL (c # up) cs"
      by (rule filter_inside_all) simp
    moreover have "filter (\<lambda>(i, ch). c \<in> set (tl ch)) (chainsL up ks) = []"
      using Elem.prems(2) d(4) True by (intro filter_inside_none) simp_all
    ultimately show ?thesis
      using True Elem.prems(2) by (simp add: fst_chainsL)
  next
    case False
    have up': "c \<notin> set (j # up)" using False Elem.prems(2) by simp
    note ih1 = Elem.IH(1) [OF d(1) up']
    note ih2 = Elem.IH(2) [OF d(2) Elem.prems(2)]
    show ?thesis
    proof (cases "c \<in> set (elems cs)")
      case True
      then have "c \<notin> set (elems ks)" using d(5) by auto
      then have n: "map_of (subtreesL ks) c = None" by (rule map_of_subtreesL_None)
      from True obtain x where x: "map_of (subtreesL cs) c = Some x"
        by (metis fst_subtreesL map_of_eq_None_iff not_Some_eq set_map)
      show ?thesis
        using False Elem.prems(2) ih1 ih2 n x by (simp add: map_add_def)
    next
      case False2: False
      then have n: "map_of (subtreesL cs) c = None" by (rule map_of_subtreesL_None)
      show ?thesis
        using False Elem.prems(2) ih1 ih2 n by (simp add: map_add_def)
    qed
  qed
qed

lemma filter_pairs_fst:
  assumes "\<And>i ch. (i, ch) \<in> set xs \<Longrightarrow> P i ch = (A i ch \<and> Q i)"
  shows "map fst (filter (\<lambda>(i, ch). P i ch) xs) = filter Q (map fst (filter (\<lambda>(i, ch). A i ch) xs))"
  using assms
proof (induction xs)
  case Nil
  show ?case by simp
next
  case (Cons p xs)
  obtain i ch where p: "p = (i, ch)" by (cases p)
  have "P i ch = (A i ch \<and> Q i)" using Cons.prems [of i ch] p by simp
  moreover have "map fst (filter (\<lambda>(i, ch). P i ch) xs)
      = filter Q (map fst (filter (\<lambda>(i, ch). A i ch) xs))"
    using Cons.prems by (intro Cons.IH) simp
  ultimately show ?case using p by simp
qed

text \<open>
  Claim C2. In a document where every element object occurs once and no nav item is
  itself a section, \<open>getVisibleNavItems\<close> returns, for every container, the
  navigable set as the specification words it: the nav items below the container that
  are not search-hidden and have no enclosing section or an expanded one, in document
  order.
\<close>

theorem getVisibleNavItems_navigable:
  assumes d: "distinct (elems (doc st))"
      and k: "\<forall>i \<in> set (elems (doc st)).
                hasAttribute st ''data-nav-item'' i \<longrightarrow> \<not> hasClass st ''nav-section'' i"
  shows "getVisibleNavItems st c = navigableSet st c"
proof -
  define CH where "CH = chainsL [] (doc st)"
  define sec where "sec = hasClass st ''nav-section''"
  define vis where "vis = (\<lambda>r. case List.find sec r of None \<Rightarrow> True | Some s \<Rightarrow> hasClass st ''expanded'' s)"
  define A where "A = (\<lambda>(i::nat) ch. c \<in> set (tl ch))"
  define Q where "Q = (\<lambda>i. shownItem st i \<and> vis (i # tl (the (map_of CH i))))"
  define P where "P = (\<lambda>i ch. c \<in> set (tl ch) \<and> shownItem st i \<and> vis (tl ch))"
  have spec: "navigableSet st c = map fst (filter (\<lambda>(i, ch). P i ch) CH)"
    using navigable_as_filter [of st c "[]" "doc st"]
    by (simp add: navigableSet_def P_def vis_def sec_def CH_def)
  have pq: "P i ch = (A i ch \<and> Q i)" if "(i, ch) \<in> set CH" for i ch
  proof -
    from that have m: "map_of CH i = Some ch"
      unfolding CH_def by (rule map_of_chainsL [OF d])
    from that have "i \<in> set (elems (doc st))"
      unfolding CH_def by (metis fst_chainsL fst_conv image_eqI set_map)
    with k have "shownItem st i \<longrightarrow> \<not> sec i" unfolding sec_def by blast
    then have "shownItem st i \<longrightarrow> vis (i # tl ch) = vis (tl ch)"
      by (simp add: vis_def)
    then show ?thesis
      unfolding P_def A_def Q_def m by auto
  qed
  have spec2: "navigableSet st c = filter Q (map fst (filter (\<lambda>(i, ch). A i ch) CH))"
    unfolding spec by (rule filter_pairs_fst) (rule pq)
  have desc: "map fst (filter (\<lambda>(i, ch). A i ch) CH)
      = (case childNodes (doc st) c of None \<Rightarrow> [] | Some cs \<Rightarrow> elems cs)"
    using descendants_by_chain [OF d, of c "[]"] by (simp add: childNodes_def A_def CH_def)
  define D where "D = map fst (filter (\<lambda>(i, ch). A i ch) CH)"
  have code: "getVisibleNavItems st c
      = filter (\<lambda>i. case closest st sec i of None \<Rightarrow> True | Some s \<Rightarrow> hasClass st ''expanded'' s)
          (filter (shownItem st) D)"
    unfolding D_def desc getVisibleNavItems_def querySelectorAll_def sec_def Let_def
    by (cases "childNodes (doc st) c") simp_all
  have cl: "(case closest st sec i of None \<Rightarrow> True | Some s \<Rightarrow> hasClass st ''expanded'' s)
          = vis (i # tl (the (map_of CH i)))" if "i \<in> set D" for i
  proof -
    from that obtain ch where in_ch: "(i, ch) \<in> set CH" unfolding D_def by auto
    then have m: "map_of CH i = Some ch"
      unfolding CH_def by (rule map_of_chainsL [OF d])
    from in_ch obtain mid where ch: "ch = i # mid"
      unfolding CH_def using chain_shape by blast
    show ?thesis
      unfolding closest_def CH_def [symmetric] m vis_def ch by simp
  qed
  have "getVisibleNavItems st c = filter Q D"
    unfolding code filter_filter Q_def
    by (rule filter_cong [OF refl]) (use cl in auto)
  then show ?thesis
    unfolding spec2 D_def .
qed

theorem getVisibleNavItems_navigable_witness:
  "distinct (elems (doc navPage))
   \<and> getVisibleNavItems navPage 4 = navigableSet navPage 4
   \<and> getVisibleNavItems navPage 4 = [6, 9, 10, 11]"
proof -
  have d: "distinct (elems (doc navPage))"
    by code_simp
  have k: "\<forall>i \<in> set (elems (doc navPage)).
             hasAttribute navPage ''data-nav-item'' i \<longrightarrow> \<not> hasClass navPage ''nav-section'' i"
    by (simp add: example_defs hasAttribute_def hasClass_def)
  show ?thesis
    using getVisibleNavItems_navigable [OF d k, of 4] d navPage_items by simp
qed

section \<open>The roving tabindex\<close>

lemma attr_simps [simp]:
  "getAttribute (setAttribute i a v st) b x = (if x = i \<and> b = a then Some v else getAttribute st b x)"
  "getAttribute (removeAttribute i a st) b x = (if x = i \<and> b = a then None else getAttribute st b x)"
  by (simp_all add: getAttribute_def setAttribute_def removeAttribute_def)

lemma attr_frame [simp]:
  "doc (setAttribute i a v st) = doc st"
  "doc (removeAttribute i a st) = doc st"
  "currentFocusedItem (setAttribute i a v st) = currentFocusedItem st"
  "currentFocusedItem (removeAttribute i a st) = currentFocusedItem st"
  "activeElement (setAttribute i a v st) = activeElement st"
  "activeElement (removeAttribute i a st) = activeElement st"
  by (simp_all add: setAttribute_def removeAttribute_def)

lemma focusout_attr:
  "getAttribute (focusout t r st) b x
     = getAttribute st b x \<or> (x = t \<and> b = ''data-focused'' \<and> getAttribute (focusout t r st) b x = None)"
  by (simp add: focusout_def Let_def)

lemma focusout_frame [simp]:
  "currentFocusedItem (focusout t r st) = currentFocusedItem st"
  "activeElement (focusout t r st) = activeElement st"
  "doc (focusout t r st) = doc st"
  by (simp_all add: focusout_def Let_def)

lemma getAttribute_upd [simp]:
  "getAttribute (st\<lparr>currentFocusedItem := v\<rparr>) = getAttribute st"
  "getAttribute (st\<lparr>activeElement := w\<rparr>) = getAttribute st"
  by (simp_all add: getAttribute_def fun_eq_iff)

lemma focus_cases:
  "focus f i st = st
   \<or> (activeElement st = None \<and> focus f i st = st\<lparr>activeElement := Some i\<rparr>)
   \<or> (\<exists>old. activeElement st = Some old \<and> old \<noteq> i
         \<and> focus f i st = (f old (Some i) st)\<lparr>activeElement := Some i\<rparr>)"
  by (cases "activeElement st") (auto simp add: focus_def)

lemma focus_attr:
  "getAttribute (focus focusout i st) b x = getAttribute st b x
   \<or> (x \<noteq> i \<and> b = ''data-focused'' \<and> getAttribute (focus focusout i st) b x = None)"
proof -
  from focus_cases [of focusout i st]
  consider "focus focusout i st = st"
    | "focus focusout i st = st\<lparr>activeElement := Some i\<rparr>"
    | old where "old \<noteq> i" "focus focusout i st = (focusout old (Some i) st)\<lparr>activeElement := Some i\<rparr>"
    by blast
  then show ?thesis
  proof cases
    case 1
    then show ?thesis by simp
  next
    case 2
    then show ?thesis by simp
  next
    case 3
    then show ?thesis using focusout_attr [of old "Some i" st b x] by auto
  qed
qed

lemma focus_tabindex [simp]:
  "getAttribute (focus focusout i st) ''tabindex'' x = getAttribute st ''tabindex'' x"
  using focus_attr [of i st "''tabindex''" x] by simp

lemma focus_frame [simp]:
  "currentFocusedItem (focus focusout i st) = currentFocusedItem st"
  "doc (focus focusout i st) = doc st"
  using focus_cases [of focusout i st] by auto

lemma blur_attr:
  "getAttribute (blur focusout i st) b x = getAttribute st b x
   \<or> (b = ''data-focused'' \<and> getAttribute (blur focusout i st) b x = None)"
  using focusout_attr [of i None st b x] by (auto simp add: blur_def)

lemma blur_tabindex [simp]:
  "getAttribute (blur focusout i st) ''tabindex'' x = getAttribute st ''tabindex'' x"
  using blur_attr [of i st "''tabindex''" x] by simp

lemma blur_frame [simp]:
  "currentFocusedItem (blur focusout i st) = currentFocusedItem st"
  by (simp add: blur_def)

lemma setFocusedItem_cursorWrites:
  "setFocusedItem m st = (focus focusout m (cursorWrites m st))\<lparr>currentFocusedItem := Some m\<rparr>"
  by (simp add: setFocusedItem_def cursorWrites_def Let_def)

lemma cursorWrites_tabindex:
  "getAttribute (cursorWrites m st) ''tabindex'' x
     = (if x = m then Some ''0''
        else if currentFocusedItem st = Some x then Some ''-1''
        else getAttribute st ''tabindex'' x)"
  by (cases "currentFocusedItem st") (auto simp add: cursorWrites_def)

lemma cursorWrites_marker:
  "getAttribute (cursorWrites m st) ''data-focused'' x
     = (if x = m then Some ''true''
        else if currentFocusedItem st = Some x then None
        else getAttribute st ''data-focused'' x)"
  by (cases "currentFocusedItem st") (auto simp add: cursorWrites_def)

lemma cursorWrites_frame [simp]:
  "activeElement (cursorWrites m st) = activeElement st"
  "currentFocusedItem (cursorWrites m st) = currentFocusedItem st"
  by (cases "currentFocusedItem st"; simp add: cursorWrites_def)+

lemma setFocusedItem_tabindex:
  "getAttribute (setFocusedItem m st) ''tabindex'' x
     = (if x = m then Some ''0''
        else if currentFocusedItem st = Some x then Some ''-1''
        else getAttribute st ''tabindex'' x)"
  by (simp add: setFocusedItem_cursorWrites cursorWrites_tabindex)

lemma setFocusedItem_marker_new:
  "getAttribute (setFocusedItem m st) ''data-focused'' m = Some ''true''"
  using focus_attr [of m "cursorWrites m st" "''data-focused''" m]
  by (simp add: setFocusedItem_cursorWrites cursorWrites_marker)

lemma setFocusedItem_marker_other:
  assumes "x \<noteq> m"
  shows "getAttribute (setFocusedItem m st) ''data-focused'' x = None
       \<or> (currentFocusedItem st \<noteq> Some x
           \<and> getAttribute (setFocusedItem m st) ''data-focused'' x = getAttribute st ''data-focused'' x)"
  using focus_attr [of m "cursorWrites m st" "''data-focused''" x] assms
  by (auto simp add: setFocusedItem_cursorWrites cursorWrites_marker)

lemma setFocusedItem_cursor [simp]:
  "currentFocusedItem (setFocusedItem m st) = Some m"
  by (simp add: setFocusedItem_def Let_def)

lemma focus_active:
  "activeElement (focus f i st) = (if focusable st i then Some i else activeElement st)"
  by (simp add: focus_def split: option.splits)

lemma setFocusedItem_active:
  "activeElement (setFocusedItem m st)
     = (if focusable (cursorWrites m st) m then Some m else activeElement st)"
  by (simp add: setFocusedItem_cursorWrites focus_active)

lemma setFocusedItem_moved: "cursorMovedTo st m (setFocusedItem m st)"
proof -
  have "getAttribute (setFocusedItem m st) ''data-focused'' c = None"
    if "currentFocusedItem st = Some c" "c \<noteq> m" for c
    using setFocusedItem_marker_other [OF that(2), of st] that(1) by simp
  then show ?thesis
    unfolding cursorMovedTo_def
    by (simp add: setFocusedItem_tabindex setFocusedItem_marker_new setFocusedItem_active)
qed

lemma setFocusedItem_roving:
  assumes "roving S st"
  shows "roving (insert m S) (setFocusedItem m st)"
proof -
  from assms obtain c where c: "currentFocusedItem st = Some c"
      "\<And>x. (getAttribute st ''tabindex'' x = Some ''0'') = (x = c)"
      "\<And>x. x \<in> S \<Longrightarrow> x \<noteq> c \<Longrightarrow> getAttribute st ''tabindex'' x = Some ''-1''"
    unfolding roving_def by blast
  have "(getAttribute (setFocusedItem m st) ''tabindex'' x = Some ''0'') = (x = m)" for x
    using c(1,2) by (simp add: setFocusedItem_tabindex)
  moreover have "getAttribute (setFocusedItem m st) ''tabindex'' x = Some ''-1''"
    if "x \<in> insert m S" "x \<noteq> m" for x
    using that c(1) c(3) [of x] by (auto simp add: setFocusedItem_tabindex)
  ultimately show ?thesis
    unfolding roving_def by simp
qed

lemma setFocusedItem_oneMarked:
  assumes "markerWithin st"
  shows "oneMarked (setFocusedItem m st)"
proof -
  have "getAttribute (setFocusedItem m st) ''data-focused'' x = None" if "x \<noteq> m" for x
    using setFocusedItem_marker_other [OF that, of st] assms unfolding markerWithin_def by auto
  then have "(getAttribute (setFocusedItem m st) ''data-focused'' x \<noteq> None) = (x = m)" for x
    using setFocusedItem_marker_new [of m st] by (cases "x = m") simp_all
  then show ?thesis
    unfolding oneMarked_def by simp
qed

lemma tabindex_reset:
  "getAttribute (foldl (\<lambda>s item. setAttribute item ''tabindex'' ''-1'' s) st items) b x
     = (if b = ''tabindex'' \<and> x \<in> set items then Some ''-1'' else getAttribute st b x)"
  by (induction items arbitrary: st) auto

lemma tabindex_reset_frame [simp]:
  "currentFocusedItem (foldl (\<lambda>s item. setAttribute item ''tabindex'' ''-1'' s) st items)
     = currentFocusedItem st"
  by (induction items arbitrary: st) auto

lemma initializeTabindex_attr:
  "getAttribute (initializeTabindex nav st) b x
     = (if b = ''tabindex'' then
          (if chosenItem st nav = Some x then Some ''0''
           else if x \<in> set (getVisibleNavItems st nav) then Some ''-1''
           else getAttribute st b x)
        else getAttribute st b x)"
  by (simp add: initializeTabindex_def chosenItem_def Let_def tabindex_reset split: option.splits)

lemma initializeTabindex_cursor:
  "currentFocusedItem (initializeTabindex nav st)
     = (case chosenItem st nav of Some c \<Rightarrow> Some c | None \<Rightarrow> currentFocusedItem st)"
  by (simp add: initializeTabindex_def chosenItem_def Let_def split: option.splits)

lemma first_opt_in: "first_opt xs = Some x \<Longrightarrow> x \<in> set xs"
  by (cases xs) (simp_all add: first_opt_def)

lemma first_opt_None: "first_opt xs = None \<Longrightarrow> xs = []"
  by (cases xs) (simp_all add: first_opt_def)

lemma initializeTabindex_roving:
  assumes "chosenItem st nav \<noteq> None"
      and "\<forall>x. getAttribute st ''tabindex'' x = Some ''0'' \<longrightarrow>
                x \<in> set (getVisibleNavItems st nav) \<or> chosenItem st nav = Some x"
  shows "roving (set (getVisibleNavItems st nav)) (initializeTabindex nav st)"
proof -
  from assms(1) obtain c where c: "chosenItem st nav = Some c" by auto
  have "(getAttribute (initializeTabindex nav st) ''tabindex'' x = Some ''0'') = (x = c)" for x
    using assms(2) c by (auto simp add: initializeTabindex_attr)
  moreover have "getAttribute (initializeTabindex nav st) ''tabindex'' x = Some ''-1''"
    if "x \<in> set (getVisibleNavItems st nav)" "x \<noteq> c" for x
    using that c by (simp add: initializeTabindex_attr)
  ultimately show ?thesis
    unfolding roving_def by (simp add: initializeTabindex_cursor c)
qed

lemma roving_cong:
  assumes "currentFocusedItem st' = currentFocusedItem st"
      and "\<And>x. getAttribute st' ''tabindex'' x = getAttribute st ''tabindex'' x"
  shows "roving S st' = roving S st"
  unfolding roving_def by (simp add: assms)

lemma roving_focus [simp]: "roving S (focus focusout i st) = roving S st"
  by (rule roving_cong) simp_all

lemma roving_blur [simp]: "roving S (blur focusout i st) = roving S st"
  by (rule roving_cong) simp_all

lemma roving_ext:
  assumes "rovingKept ext"
  shows "roving S (click ext x st) = roving S st"
    and "roving S (collapseCurrentSection ext x st) = roving S st"
    and "roving S (expandCurrentSection ext x st) = roving S st"
  using assms unfolding rovingKept_def sameRoving_def by (auto intro!: roving_cong)

lemma markerWithin_focus: "markerWithin st \<Longrightarrow> markerWithin (focus focusout i st)"
  unfolding markerWithin_def
  using focus_attr [of i st "''data-focused''"] by (metis focus_frame(1))

lemma markerWithin_blur: "markerWithin st \<Longrightarrow> markerWithin (blur focusout i st)"
  unfolding markerWithin_def
  using blur_attr [of i st "''data-focused''"] by (metis blur_frame)

lemma markerWithin_setFocusedItem: "markerWithin st \<Longrightarrow> markerWithin (setFocusedItem m st)"
  using setFocusedItem_oneMarked [of st m] unfolding oneMarked_def markerWithin_def by auto

lemma markerWithin_ext:
  assumes "rovingKept ext" "markerWithin st"
  shows "markerWithin (click ext x st)"
    and "markerWithin (collapseCurrentSection ext x st)"
    and "markerWithin (expandCurrentSection ext x st)"
  using assms unfolding rovingKept_def sameRoving_def markerWithin_def by metis+

text \<open>
  What every \<open>keydown\<close> keeps: the roving tabindex over a set \<open>S\<close>, and that
  only the cursor element may carry the marker.
\<close>

lemma kept_section_header:
  assumes "rovingKept ext" "roving S st \<and> markerWithin st"
  shows "roving S (snd (handleSectionHeaderKeydown ext e tgt st))
       \<and> markerWithin (snd (handleSectionHeaderKeydown ext e tgt st))"
proof -
  have m: "roving S (setFocusedItem m st) \<and> markerWithin (setFocusedItem m st)" for m
    using setFocusedItem_roving [of S st m] markerWithin_setFocusedItem [of st m] assms(2)
    unfolding roving_def by auto
  have f: "roving S (focus focusout i st) \<and> markerWithin (focus focusout i st)" for i
    using assms(2) markerWithin_focus by simp
  have c: "roving S (click ext x st) \<and> markerWithin (click ext x st)" for x
    using assms roving_ext(1) markerWithin_ext(1) by simp
  show ?thesis
    using m f c assms(2)
    by (simp add: handleSectionHeaderKeydown_def Let_def split: option.splits)
qed

lemma kept_nav_item:
  assumes "rovingKept ext" "roving S st \<and> markerWithin st"
  shows "roving S (snd (handleNavItemKeydown ext e tgt st))
       \<and> markerWithin (snd (handleNavItemKeydown ext e tgt st))"
proof -
  have m: "roving S (setFocusedItem m st) \<and> markerWithin (setFocusedItem m st)" for m
    using setFocusedItem_roving [of S st m] markerWithin_setFocusedItem [of st m] assms(2)
    unfolding roving_def by auto
  have f: "roving S (focus focusout i st) \<and> markerWithin (focus focusout i st)" for i
    using assms(2) markerWithin_focus by simp
  have c: "roving S (click ext x st) \<and> markerWithin (click ext x st)" for x
    using assms roving_ext(1) markerWithin_ext(1) by simp
  have x: "roving S (expandCurrentSection ext x st) \<and> markerWithin (expandCurrentSection ext x st)"
    for x
    using assms roving_ext(3) markerWithin_ext(3) by simp
  have l: "roving S (collapseCurrentSection ext x st)
      \<and> markerWithin (collapseCurrentSection ext x st)" for x
    using assms roving_ext(2) markerWithin_ext(2) by simp
  have lf: "roving S (focus focusout i (collapseCurrentSection ext x st))
      \<and> markerWithin (focus focusout i (collapseCurrentSection ext x st))" for i x
    using l [of x] markerWithin_focus by simp
  show ?thesis
    using m f c x l lf assms(2)
    by (simp add: handleNavItemKeydown_def Let_def split: option.splits)
qed

lemma kept_into_sidebar:
  assumes "roving S st \<and> markerWithin st"
  shows "roving S (focusIntoSidebar st) \<and> markerWithin (focusIntoSidebar st)"
proof -
  have m: "roving S (setFocusedItem m st) \<and> markerWithin (setFocusedItem m st)" for m
    using setFocusedItem_roving [of S st m] markerWithin_setFocusedItem [of st m] assms
    unfolding roving_def by auto
  show ?thesis
    using m assms
    by (simp add: focusIntoSidebar_def Let_def split: option.splits)
qed

lemma kept_keydown:
  assumes "rovingKept ext" "roving S st \<and> markerWithin st"
  shows "roving S (snd (keydown ext e st)) \<and> markerWithin (snd (keydown ext e st))"
proof -
  have f: "roving S (focus focusout i st) \<and> markerWithin (focus focusout i st)" for i
    using assms(2) markerWithin_focus by simp
  have b: "roving S (blur focusout i st) \<and> markerWithin (blur focusout i st)" for i
    using assms(2) markerWithin_blur by simp
  have bf: "roving S (focus focusout j (blur focusout i st))
      \<and> markerWithin (focus focusout j (blur focusout i st))" for i j
    using b [of i] markerWithin_focus by simp
  have "roving S (snd (createKeydownHandler ext nav si e st))
      \<and> markerWithin (snd (createKeydownHandler ext nav si e st))" for nav si
    using f b bf assms(2) kept_section_header [OF assms] kept_nav_item [OF assms]
      kept_into_sidebar [OF assms(2)]
    by (simp add: createKeydownHandler_def Let_def split: option.splits)
  then show ?thesis
    using assms(2) by (simp add: keydown_def split: option.splits handler.splits)
qed

text \<open>
  Claim C1, as amended. \<^verbatim>\<open>initializeTabindex\<close> writes \<open>tabindex\<close> 0 on the chosen
  item (the active item of the nav if there is one, else its first visible item) and
  makes it the cursor, writes \<open>tabindex\<close> -1 on every other visible item, and writes
  nothing else: no focused marker, and no \<open>tabindex\<close> on section headers or on items
  that are not visible at that moment. So when there is a chosen item and no other
  element had \<open>tabindex\<close> 0 before, exactly one element of the page has
  \<open>tabindex\<close> 0 afterwards, the cursor, and every other item that was visible has -1.
  \<^verbatim>\<open>setFocusedItem(m)\<close>, on any page, moves the cursor to \<open>m\<close>: \<open>m\<close> gets
  \<open>tabindex\<close> 0 and the marker, the previous cursor element gets -1 and loses the
  marker, no other \<open>tabindex\<close> changes and no other element gains a marker. So the
  roving tabindex over any set of elements is kept by each move (and \<open>m\<close> joins the
  set), and after a move exactly one element carries the marker, the cursor, when at
  most the cursor carried it before. Both properties are kept by every \<open>keydown\<close>
  the module handles, provided the functions outside the sources leave cursor,
  \<open>tabindex\<close> and marker alone.
\<close>

theorem roving_tabindex:
  "(\<forall>x. getAttribute (initializeTabindex nav st) ''tabindex'' x
           = (if chosenItem st nav = Some x then Some ''0''
              else if x \<in> set (getVisibleNavItems st nav) then Some ''-1''
              else getAttribute st ''tabindex'' x))
   \<and> (\<forall>a x. a \<noteq> ''tabindex'' \<longrightarrow>
          getAttribute (initializeTabindex nav st) a x = getAttribute st a x)
   \<and> currentFocusedItem (initializeTabindex nav st)
       = (case chosenItem st nav of Some c \<Rightarrow> Some c | None \<Rightarrow> currentFocusedItem st)
   \<and> (chosenItem st nav \<noteq> None
        \<and> (\<forall>x. getAttribute st ''tabindex'' x = Some ''0'' \<longrightarrow>
                x \<in> set (getVisibleNavItems st nav) \<or> chosenItem st nav = Some x)
       \<longrightarrow> roving (set (getVisibleNavItems st nav)) (initializeTabindex nav st))
   \<and> cursorMovedTo s m (setFocusedItem m s)
   \<and> (\<forall>x. x \<noteq> m \<longrightarrow>
          getAttribute (setFocusedItem m s) ''data-focused'' x = None
          \<or> getAttribute (setFocusedItem m s) ''data-focused'' x
               = getAttribute s ''data-focused'' x)
   \<and> (roving S s \<longrightarrow> roving (insert m S) (setFocusedItem m s))
   \<and> (markerWithin s \<longrightarrow> oneMarked (setFocusedItem m s))
   \<and> (rovingKept ext \<and> roving S s \<and> markerWithin s \<longrightarrow>
        roving S (snd (keydown ext e s)) \<and> markerWithin (snd (keydown ext e s)))"
proof -
  have 1: "\<forall>x. getAttribute (initializeTabindex nav st) ''tabindex'' x
           = (if chosenItem st nav = Some x then Some ''0''
              else if x \<in> set (getVisibleNavItems st nav) then Some ''-1''
              else getAttribute st ''tabindex'' x)"
    by (simp add: initializeTabindex_attr)
  have 2: "\<forall>a x. a \<noteq> ''tabindex'' \<longrightarrow>
          getAttribute (initializeTabindex nav st) a x = getAttribute st a x"
    by (simp add: initializeTabindex_attr)
  note 3 = initializeTabindex_cursor [of nav st]
  have 4: "chosenItem st nav \<noteq> None
        \<and> (\<forall>x. getAttribute st ''tabindex'' x = Some ''0'' \<longrightarrow>
                x \<in> set (getVisibleNavItems st nav) \<or> chosenItem st nav = Some x)
       \<longrightarrow> roving (set (getVisibleNavItems st nav)) (initializeTabindex nav st)"
    using initializeTabindex_roving [of st nav] by blast
  note 5 = setFocusedItem_moved [of s m]
  have 6: "\<forall>x. x \<noteq> m \<longrightarrow>
          getAttribute (setFocusedItem m s) ''data-focused'' x = None
          \<or> getAttribute (setFocusedItem m s) ''data-focused'' x
               = getAttribute s ''data-focused'' x"
    using setFocusedItem_marker_other [of _ m s] by blast
  have 7: "roving S s \<longrightarrow> roving (insert m S) (setFocusedItem m s)"
    using setFocusedItem_roving [of S s m] by blast
  have 8: "markerWithin s \<longrightarrow> oneMarked (setFocusedItem m s)"
    using setFocusedItem_oneMarked [of s m] by blast
  have 9: "rovingKept ext \<and> roving S s \<and> markerWithin s \<longrightarrow>
        roving S (snd (keydown ext e s)) \<and> markerWithin (snd (keydown ext e s))"
    using kept_keydown [of ext S s e] by blast
  from 1 2 3 4 5 6 7 8 9 show ?thesis by blast
qed

lemma navPage_attrs:
  "getAttribute navPage ''tabindex'' x = None"
  "getAttribute navPage ''data-focused'' x = None"
  by (simp_all add: example_defs getAttribute_def)

lemma hasClass_attr [simp]:
  "hasClass (setAttribute i a v st) = hasClass st"
  "hasClass (removeAttribute i a st) = hasClass st"
  "hasClass (st\<lparr>currentFocusedItem := c\<rparr>) = hasClass st"
  "hasClass (st\<lparr>activeElement := w\<rparr>) = hasClass st"
  by (simp_all add: hasClass_def setAttribute_def removeAttribute_def fun_eq_iff)

lemma hasClass_tabindex_reset [simp]:
  "hasClass (foldl (\<lambda>s item. setAttribute item ''tabindex'' ''-1'' s) st items) = hasClass st"
  by (induction items arbitrary: st) auto

lemma hasClass_initializeTabindex [simp]:
  "hasClass (initializeTabindex nav st) = hasClass st"
  by (simp add: initializeTabindex_def Let_def split: option.splits)

lemma navPage_chosen: "chosenItem navPage 4 = Some 6"
  by code_simp

lemma inert_rovingKept: "rovingKept inertExternals"
  by (simp add: rovingKept_def sameRoving_def inertExternals_def)

text \<open>
  The claim as stated fails in three ways. Right after \<^verbatim>\<open>initializeTabindex\<close> on the
  example page, the element with \<open>tabindex\<close> 0 has no focused marker, and the
  section header, an element of the navigable set, has no \<open>tabindex\<close> at all. And
  when the collapsed section is expanded after the initialisation, its item is
  visible after the next cursor move and has no \<open>tabindex\<close> either.
\<close>

theorem roving_tabindex_counterexample:
  "getAttribute (initializeTabindex 4 navPage) ''tabindex'' 6 = Some ''0''
   \<and> getAttribute (initializeTabindex 4 navPage) ''data-focused'' 6 = None
   \<and> hasClass (initializeTabindex 4 navPage) ''nav-section-header'' 8
   \<and> getAttribute (initializeTabindex 4 navPage) ''tabindex'' 8 = None
   \<and> getVisibleNavItems
        (setFocusedItem 9 (classList_add 12 ''expanded'' (initializeTabindex 4 navPage))) 4
       = [6, 9, 10, 11, 14]
   \<and> getAttribute
        (setFocusedItem 9 (classList_add 12 ''expanded'' (initializeTabindex 4 navPage)))
        ''tabindex'' 14 = None"
  by code_simp

theorem roving_tabindex_witness:
  "getVisibleNavItems navPage 4 = [6, 9, 10, 11]
   \<and> chosenItem navPage 4 = Some 6
   \<and> currentFocusedItem (initializeTabindex 4 navPage) = Some 6
   \<and> roving {6, 9, 10, 11} (initializeTabindex 4 navPage)
   \<and> markerWithin (initializeTabindex 4 navPage)
   \<and> cursorMovedTo (initializeTabindex 4 navPage) 9 (setFocusedItem 9 (initializeTabindex 4 navPage))
   \<and> roving {6, 9, 10, 11} (setFocusedItem 9 (initializeTabindex 4 navPage))
   \<and> oneMarked (setFocusedItem 9 (initializeTabindex 4 navPage))
   \<and> rovingKept inertExternals
   \<and> roving {6, 9, 10, 11}
        (snd (keydown inertExternals \<lparr>key = ''ArrowDown'', target = 6\<rparr> (initializeTabindex 4 navPage)))"
proof -
  let ?i = "initializeTabindex 4 navPage"
  note t = roving_tabindex [of 4 navPage ?i 9 "{6, 9, 10, 11}" inertExternals
      "\<lparr>key = ''ArrowDown'', target = 6\<rparr>"]
  have s: "insert 9 {6, 9, 10, 11} = {6, 9, 10, 11::nat}" by auto
  have r: "roving {6, 9, 10, 11} ?i"
    using t by (simp add: navPage_items navPage_chosen navPage_attrs)
  have m: "markerWithin ?i"
    using t unfolding markerWithin_def by (simp add: navPage_attrs)
  have c: "currentFocusedItem ?i = Some 6"
    using t by (simp add: navPage_chosen)
  show ?thesis
    using t r m c by (simp add: navPage_items navPage_chosen inert_rovingKept s)
qed

section \<open>The page after the initialisation of the keyboard module\<close>

lemma withTabindex_twice [simp]: "withTabindex t (withTabindex t' e) = withTabindex t e"
  by (simp add: withTabindex_def)

lemma setAttribute_tabindex:
  "setAttribute i ''tabindex'' t st = st\<lparr>objs := (objs st)(i := withTabindex t (objs st i))\<rparr>"
  by (simp add: setAttribute_def withTabindex_def)

lemma tabindex_reset_eq:
  "foldl (\<lambda>s item. setAttribute item ''tabindex'' ''-1'' s) st items
     = st\<lparr>objs := (\<lambda>x. if x \<in> set items then withTabindex ''-1'' (objs st x) else objs st x)\<rparr>"
proof (induction items rule: rev_induct)
  case Nil
  show ?case by simp
next
  case (snoc i items)
  define O' where "O' = (\<lambda>x. if x \<in> set items then withTabindex ''-1'' (objs st x) else objs st x)"
  from snoc have IH: "foldl (\<lambda>s item. setAttribute item ''tabindex'' ''-1'' s) st items
      = st\<lparr>objs := O'\<rparr>"
    by (simp add: O'_def)
  have "foldl (\<lambda>s item. setAttribute item ''tabindex'' ''-1'' s) st (items @ [i])
      = setAttribute i ''tabindex'' ''-1'' (st\<lparr>objs := O'\<rparr>)"
    by (simp add: IH)
  also have "\<dots> = st\<lparr>objs := O'(i := withTabindex ''-1'' (O' i))\<rparr>"
    by (simp add: setAttribute_tabindex)
  also have "O'(i := withTabindex ''-1'' (O' i))
      = (\<lambda>x. if x \<in> set (items @ [i]) then withTabindex ''-1'' (objs st x) else objs st x)"
    by (rule ext) (simp add: O'_def)
  finally show ?case .
qed

lemma initializeTabindex_eq:
  assumes "chosenItem st nav = Some c"
  shows "initializeTabindex nav st
     = st\<lparr>objs := tabbed c (getVisibleNavItems st nav) (objs st), currentFocusedItem := Some c\<rparr>"
proof -
  define items where "items = getVisibleNavItems st nav"
  define O' where "O' = (\<lambda>x. if x \<in> set items then withTabindex ''-1'' (objs st x) else objs st x)"
  have "initializeTabindex nav st
      = (setAttribute c ''tabindex'' ''0'' (st\<lparr>objs := O'\<rparr>))\<lparr>currentFocusedItem := Some c\<rparr>"
    using assms
    by (simp add: initializeTabindex_def chosenItem_def Let_def tabindex_reset_eq items_def O'_def
        split: option.splits)
  also have "\<dots> = st\<lparr>objs := O'(c := withTabindex ''0'' (O' c)), currentFocusedItem := Some c\<rparr>"
    by (simp add: setAttribute_tabindex)
  also have "O'(c := withTabindex ''0'' (O' c)) = tabbed c items (objs st)"
    by (rule ext) (simp add: O'_def tabbed_def)
  finally show ?thesis by (simp add: items_def)
qed

lemma initKeyboardNavigation_eq:
  assumes "getElementById st searchInputId = si" and "findNav st si = Some nav"
      and "globalKeydownHandler st = None" and "chosenItem st nav = Some c"
  shows "initKeyboardNavigation searchInputId st
     = st\<lparr>objs := tabbed c (getVisibleNavItems st nav) (objs st), currentFocusedItem := Some c,
          globalKeydownHandler := Some (KeydownHandler nav si),
          listeners := listeners st @ [(Document, ''keydown'', KeydownHandler nav si)]\<rparr>"
  using assms
  by (simp add: initKeyboardNavigation_def Let_def initializeTabindex_eq addEventListener_def)

lemma currentNav_dom [simp]:
  "hasClass (st\<lparr>currentNav := n\<rparr>) = hasClass st"
  "hasAttribute (st\<lparr>currentNav := n\<rparr>) = hasAttribute st"
  "querySelectorAll (st\<lparr>currentNav := n\<rparr>) = querySelectorAll st"
  "querySelector (st\<lparr>currentNav := n\<rparr>) = querySelector st"
  "closest (st\<lparr>currentNav := n\<rparr>) = closest st"
  by (simp_all add: hasClass_def hasAttribute_def querySelectorAll_def querySelector_def
       closest_def fun_eq_iff)

lemma currentNav_items [simp]:
  "getVisibleNavItems (st\<lparr>currentNav := n\<rparr>) = getVisibleNavItems st"
  by (simp add: getVisibleNavItems_def fun_eq_iff cong: option.case_cong)

lemma currentNav_chosen [simp]: "chosenItem (st\<lparr>currentNav := n\<rparr>) = chosenItem st"
  by (simp add: chosenItem_def fun_eq_iff cong: option.case_cong)

text \<open>
  The tabindex set-up written out in the second module is that of
  \<^verbatim>\<open>initializeTabindex\<close>.
\<close>

lemma initKeyboardNavigation'_eq:
  assumes "getElementById st searchInputId = si" and "findNav st si = Some nav"
      and "globalKeydownHandler st = None" and "navKeydownHandler st = None"
      and "listeners st = []" and "chosenItem st nav = Some c"
  shows "initKeyboardNavigation' searchInputId st
     = st\<lparr>objs := tabbed c (getVisibleNavItems st nav) (objs st), currentFocusedItem := Some c,
          currentNav := Some nav,
          globalKeydownHandler := Some HandleGlobalKeydown,
          navKeydownHandler := Some HandleNavKeydown,
          listeners := [(Document, ''keydown'', HandleGlobalKeydown),
                        (Node nav, ''keydown'', HandleNavKeydown)]\<rparr>"
proof -
  define st3 where "st3 = st\<lparr>currentNav := Some nav\<rparr>"
  have c3: "chosenItem st3 nav = Some c" using assms(6) by (simp add: st3_def)
  have h: "initKeyboardNavigation' searchInputId st
      = addEventListener (Node nav) ''keydown'' HandleNavKeydown
          (addEventListener Document ''keydown'' HandleGlobalKeydown
            ((initializeTabindex nav st3)\<lparr>globalKeydownHandler := Some HandleGlobalKeydown,
                                           navKeydownHandler := Some HandleNavKeydown\<rparr>))"
    using assms(1-4)
    by (simp add: initKeyboardNavigation'_def Let_def initializeTabindex_def st3_def
        cong: option.case_cong)
  note e = initializeTabindex_eq [OF c3]
  show ?thesis
    unfolding h e using assms(5) by (simp add: addEventListener_def st3_def)
qed

text \<open>The example pages after the initialisation.\<close>

lemma navPage_fields:
  "listeners navPage = []" "globalKeydownHandler navPage = None"
  "navKeydownHandler navPage = None"
  "listeners twoNavPage = []" "globalKeydownHandler twoNavPage = None"
  "navKeydownHandler twoNavPage = None"
  "listeners checkboxPage = []" "globalKeydownHandler checkboxPage = None"
  "listeners defaultIdPage = []" "globalKeydownHandler defaultIdPage = None"
  "navKeydownHandler defaultIdPage = None"
  by (simp_all add: navPage_def twoNavPage_def checkboxPage_def defaultIdPage_def page0_def)

lemma navPage_found:
  "getElementById navPage ''sidebar-search-mobile'' = Some 3" "findNav navPage (Some 3) = Some 4"
  by code_simp+

lemma twoNavPage_found:
  "getElementById twoNavPage ''sidebar-search-mobile'' = Some 3"
  "findNav twoNavPage (Some 3) = Some 4"
  "chosenItem twoNavPage 4 = Some 6"
  "getVisibleNavItems twoNavPage 4 = [6, 9, 10, 11]"
  by code_simp+

lemma checkboxPage_found:
  "getElementById checkboxPage ''sidebar-search-mobile'' = Some 3"
  "findNav checkboxPage (Some 3) = Some 4"
  "chosenItem checkboxPage 4 = Some 6"
  "getVisibleNavItems checkboxPage 4 = [6]"
  by code_simp+

lemma defaultIdPage_found:
  "getElementById defaultIdPage ''sidebar-search'' = Some 3"
  "findNav defaultIdPage (Some 3) = Some 4"
  "chosenItem defaultIdPage 4 = Some 6"
  "getVisibleNavItems defaultIdPage 4 = [6, 9, 10, 11]"
  by code_simp+

lemma readyPage_nf:
  "readyPage a = navPage\<lparr>objs := tabbed 6 [6, 9, 10, 11] (objs navPage),
       currentFocusedItem := Some 6,
       globalKeydownHandler := Some (KeydownHandler 4 (Some 3)),
       listeners := [(Document, ''keydown'', KeydownHandler 4 (Some 3))],
       activeElement := Some a\<rparr>"
  unfolding readyPage_def
  by (simp add: initKeyboardNavigation_eq [OF navPage_found navPage_fields(2) navPage_chosen]
      navPage_items navPage_fields)

lemma readyPage'_nf:
  "readyPage' a = navPage\<lparr>objs := tabbed 6 [6, 9, 10, 11] (objs navPage),
       currentFocusedItem := Some 6, currentNav := Some 4,
       globalKeydownHandler := Some HandleGlobalKeydown,
       navKeydownHandler := Some HandleNavKeydown,
       listeners := [(Document, ''keydown'', HandleGlobalKeydown),
                     (Node 4, ''keydown'', HandleNavKeydown)],
       activeElement := Some a\<rparr>"
  unfolding readyPage'_def
  by (simp add: initKeyboardNavigation'_eq [OF navPage_found navPage_fields(2,3,1) navPage_chosen]
      navPage_items)

lemma twoNavReady_nf:
  "twoNavReady a = twoNavPage\<lparr>objs := tabbed 6 [6, 9, 10, 11] (objs twoNavPage),
       currentFocusedItem := Some 6,
       globalKeydownHandler := Some (KeydownHandler 4 (Some 3)),
       listeners := [(Document, ''keydown'', KeydownHandler 4 (Some 3))],
       activeElement := Some a\<rparr>"
  unfolding twoNavReady_def
  by (simp add: initKeyboardNavigation_eq [OF twoNavPage_found(1,2) navPage_fields(5)
        twoNavPage_found(3)] twoNavPage_found navPage_fields)

lemma twoNavReady'_nf:
  "twoNavReady' a = twoNavPage\<lparr>objs := tabbed 6 [6, 9, 10, 11] (objs twoNavPage),
       currentFocusedItem := Some 6, currentNav := Some 4,
       globalKeydownHandler := Some HandleGlobalKeydown,
       navKeydownHandler := Some HandleNavKeydown,
       listeners := [(Document, ''keydown'', HandleGlobalKeydown),
                     (Node 4, ''keydown'', HandleNavKeydown)],
       activeElement := Some a\<rparr>"
  unfolding twoNavReady'_def
  by (simp add: initKeyboardNavigation'_eq [OF twoNavPage_found(1,2) navPage_fields(5,6,4)
        twoNavPage_found(3)] twoNavPage_found)

lemma checkboxReady_nf:
  "checkboxReady = checkboxPage\<lparr>objs := tabbed 6 [6] (objs checkboxPage),
       currentFocusedItem := Some 6,
       globalKeydownHandler := Some (KeydownHandler 4 (Some 3)),
       listeners := [(Document, ''keydown'', KeydownHandler 4 (Some 3))],
       activeElement := Some 15\<rparr>"
  unfolding checkboxReady_def
  by (simp add: initKeyboardNavigation_eq [OF checkboxPage_found(1,2) navPage_fields(8)
        checkboxPage_found(3)] checkboxPage_found navPage_fields)

lemma defaultIdReady'_nf:
  "defaultIdReady' = defaultIdPage\<lparr>objs := tabbed 6 [6, 9, 10, 11] (objs defaultIdPage),
       currentFocusedItem := Some 6, currentNav := Some 4,
       globalKeydownHandler := Some HandleGlobalKeydown,
       navKeydownHandler := Some HandleNavKeydown,
       listeners := [(Document, ''keydown'', HandleGlobalKeydown),
                     (Node 4, ''keydown'', HandleNavKeydown)],
       activeElement := Some 1\<rparr>"
  unfolding defaultIdReady'_def
  by (simp add: initKeyboardNavigation'_eq [OF defaultIdPage_found(1,2) navPage_fields(10,11,9)
        defaultIdPage_found(3)] defaultIdPage_found)

lemmas ready_nf = readyPage_nf readyPage'_nf twoNavReady_nf twoNavReady'_nf checkboxReady_nf
  defaultIdReady'_nf

section \<open>The slash key\<close>

lemma focus_activeElement:
  "activeElement (focus f i st) = (if focusable st i then Some i else activeElement st)"
  by (simp add: focus_def split: option.splits)

lemma handleNavKeydown_slash: "key e = ''/'' \<Longrightarrow> handleNavKeydown ext e st = (False, st)"
  by (simp add: handleNavKeydown_def handleSectionHeaderKeydown'_def Let_def split: option.splits)

lemma createKeydownHandler_slash:
  "key e = ''/'' \<Longrightarrow>
     createKeydownHandler ext nav si e st =
       (if isTextEntry st (target e) then (False, st)
        else (True, case si of None \<Rightarrow> st | Some s \<Rightarrow> focus focusout s st))"
  by (simp add: createKeydownHandler_def)

lemma handleGlobalKeydown_slash:
  "key e = ''/'' \<Longrightarrow>
     handleGlobalKeydown e st =
       (if isTextEntry st (target e) then (False, st)
        else (True, case document_querySelector st (idStartsWith st ''sidebar-search-'') of
                      None \<Rightarrow> st
                    | Some s \<Rightarrow> focus focusout' s st))"
  by (simp add: handleGlobalKeydown_def)

lemma keydown'_slash:
  "key e = ''/'' \<Longrightarrow> globalKeydownHandler st = Some HandleGlobalKeydown \<Longrightarrow>
     keydown' ext e st = handleGlobalKeydown e st"
  by (simp add: keydown'_def Let_def handleNavKeydown_slash)

text \<open>
  Claim C7, as amended. A \<open>keydown\<close> with the key \<open>/\<close>, dispatched to the
  listeners the keyboard module has installed. In the module with one global listener:
  when the target is an \<open>input\<close> element (of any type) or a \<open>textarea\<close>, the
  default action is not prevented and the page is unchanged; otherwise the default
  action is prevented, and the search input the module was initialised with holds the
  focus afterwards when the browser can focus it; when it cannot, or when there is no
  such input, the focus stays where it was. In the module with a global and a per-nav
  listener the same holds with, as the search input, the first element of the document
  whose id starts with \<open>sidebar-search-\<close>; when there is no such element the default
  action is prevented and the page is unchanged.
\<close>

theorem slash_key_routing:
  assumes "key e = ''/''"
  shows "(globalKeydownHandler st = Some (KeydownHandler nav si) \<longrightarrow>
            (isTextEntry st (target e) \<longrightarrow> keydown ext e st = (False, st))
            \<and> (\<not> isTextEntry st (target e) \<longrightarrow>
                 fst (keydown ext e st)
                 \<and> (case si of
                       None \<Rightarrow> snd (keydown ext e st) = st
                     | Some s \<Rightarrow>
                         activeElement (snd (keydown ext e st))
                           = (if focusable st s then Some s else activeElement st))))
       \<and> (globalKeydownHandler st = Some HandleGlobalKeydown \<longrightarrow>
            (isTextEntry st (target e) \<longrightarrow> keydown' ext e st = (False, st))
            \<and> (\<not> isTextEntry st (target e) \<longrightarrow>
                 fst (keydown' ext e st)
                 \<and> (case document_querySelector st (idStartsWith st ''sidebar-search-'') of
                       None \<Rightarrow> snd (keydown' ext e st) = st
                     | Some s \<Rightarrow>
                         activeElement (snd (keydown' ext e st))
                           = (if focusable st s then Some s else activeElement st))))"
proof -
  have one: "globalKeydownHandler st = Some (KeydownHandler nav si) \<longrightarrow>
            (isTextEntry st (target e) \<longrightarrow> keydown ext e st = (False, st))
            \<and> (\<not> isTextEntry st (target e) \<longrightarrow>
                 fst (keydown ext e st)
                 \<and> (case si of
                       None \<Rightarrow> snd (keydown ext e st) = st
                     | Some s \<Rightarrow>
                         activeElement (snd (keydown ext e st))
                           = (if focusable st s then Some s else activeElement st)))"
    using assms
    by (simp add: keydown_def createKeydownHandler_slash focus_activeElement split: option.splits)
  have two: "globalKeydownHandler st = Some HandleGlobalKeydown \<longrightarrow>
            (isTextEntry st (target e) \<longrightarrow> keydown' ext e st = (False, st))
            \<and> (\<not> isTextEntry st (target e) \<longrightarrow>
                 fst (keydown' ext e st)
                 \<and> (case document_querySelector st (idStartsWith st ''sidebar-search-'') of
                       None \<Rightarrow> snd (keydown' ext e st) = st
                     | Some s \<Rightarrow>
                         activeElement (snd (keydown' ext e st))
                           = (if focusable st s then Some s else activeElement st)))"
    using assms
    by (simp add: keydown'_slash handleGlobalKeydown_slash focus_activeElement split: option.splits)
  from one two show ?thesis by blast
qed

text \<open>
  The claim as stated fails in two ways. A checkbox is an \<open>input\<close> element that is
  neither a text input nor a textarea: with the focus on it, the key \<open>/\<close> does not
  bring the focus to the search input (which could take it), and the default action
  is not prevented. And in the module with a global and a per-nav listener,
  initialised with its default id \<open>sidebar-search\<close> on a page whose search input
  has this id, the key \<open>/\<close> pressed on the body has its default action prevented
  while the search input, which could take the focus, does not receive it.
\<close>

theorem slash_key_counterexample:
  "globalKeydownHandler checkboxReady = Some (KeydownHandler 4 (Some 3))
   \<and> \<not> isTextInput checkboxReady 15
   \<and> tagName (objs checkboxReady 15) \<noteq> ''TEXTAREA''
   \<and> focusable checkboxReady 3
   \<and> \<not> fst (keydown inertExternals \<lparr>key = ''/'', target = 15\<rparr> checkboxReady)
   \<and> activeElement (snd (keydown inertExternals \<lparr>key = ''/'', target = 15\<rparr> checkboxReady))
       = Some 15
   \<and> getElementById defaultIdPage ''sidebar-search'' = Some 3
   \<and> globalKeydownHandler defaultIdReady' = Some HandleGlobalKeydown
   \<and> \<not> isTextEntry defaultIdReady' 1
   \<and> focusable defaultIdReady' 3
   \<and> fst (keydown' inertExternals \<lparr>key = ''/'', target = 1\<rparr> defaultIdReady')
   \<and> activeElement (snd (keydown' inertExternals \<lparr>key = ''/'', target = 1\<rparr> defaultIdReady'))
       = Some 1"
  by (simp only: ready_nf) code_simp

theorem slash_key_routing_witness:
  "key \<lparr>key = ''/'', target = 6\<rparr> = ''/''
   \<and> globalKeydownHandler (readyPage 6) = Some (KeydownHandler 4 (Some 3))
   \<and> \<not> isTextEntry (readyPage 6) 6
   \<and> focusable (readyPage 6) 3
   \<and> fst (keydown inertExternals \<lparr>key = ''/'', target = 6\<rparr> (readyPage 6))
   \<and> activeElement (snd (keydown inertExternals \<lparr>key = ''/'', target = 6\<rparr> (readyPage 6))) = Some 3
   \<and> isTextEntry (readyPage 3) 3
   \<and> keydown inertExternals \<lparr>key = ''/'', target = 3\<rparr> (readyPage 3) = (False, readyPage 3)
   \<and> globalKeydownHandler (readyPage' 6) = Some HandleGlobalKeydown
   \<and> document_querySelector (readyPage' 6) (idStartsWith (readyPage' 6) ''sidebar-search-'') = Some 3
   \<and> fst (keydown' inertExternals \<lparr>key = ''/'', target = 6\<rparr> (readyPage' 6))
   \<and> activeElement (snd (keydown' inertExternals \<lparr>key = ''/'', target = 6\<rparr> (readyPage' 6))) = Some 3
   \<and> keydown' inertExternals \<lparr>key = ''/'', target = 3\<rparr> (readyPage' 3) = (False, readyPage' 3)"
proof -
  have g1: "globalKeydownHandler (readyPage 6) = Some (KeydownHandler 4 (Some 3))"
    by (simp only: ready_nf) code_simp
  have g3: "globalKeydownHandler (readyPage 3) = Some (KeydownHandler 4 (Some 3))"
    by (simp only: ready_nf) code_simp
  have t1: "\<not> isTextEntry (readyPage 6) 6" by (simp only: ready_nf) code_simp
  have t3: "isTextEntry (readyPage 3) 3" by (simp only: ready_nf) code_simp
  have f1: "focusable (readyPage 6) 3" by (simp only: ready_nf) code_simp
  have g1': "globalKeydownHandler (readyPage' 6) = Some HandleGlobalKeydown" by (simp only: ready_nf) code_simp
  have g3': "globalKeydownHandler (readyPage' 3) = Some HandleGlobalKeydown" by (simp only: ready_nf) code_simp
  have t1': "\<not> isTextEntry (readyPage' 6) 6" by (simp only: ready_nf) code_simp
  have t3': "isTextEntry (readyPage' 3) 3" by (simp only: ready_nf) code_simp
  have f1': "focusable (readyPage' 6) 3" by (simp only: ready_nf) code_simp
  have q1': "document_querySelector (readyPage' 6) (idStartsWith (readyPage' 6) ''sidebar-search-'')
      = Some 3"
    by (simp only: ready_nf) code_simp
  show ?thesis
    using slash_key_routing [of "\<lparr>key = ''/'', target = 6\<rparr>" "readyPage 6" 4 "Some 3" inertExternals]
      slash_key_routing [of "\<lparr>key = ''/'', target = 3\<rparr>" "readyPage 3" 4 "Some 3" inertExternals]
      slash_key_routing [of "\<lparr>key = ''/'', target = 6\<rparr>" "readyPage' 6" 4 "Some 3" inertExternals]
      slash_key_routing [of "\<lparr>key = ''/'', target = 3\<rparr>" "readyPage' 3" 4 "Some 3" inertExternals]
    by (simp add: g1 g3 t1 t3 f1 g1' g3' t1' t3' f1' q1')
qed

section \<open>ArrowDown on a nav item\<close>

lemma distinct_getVisibleNavItems:
  assumes "distinct (elems (doc st))"
  shows "distinct (getVisibleNavItems st c)"
proof (cases "childNodes (doc st) c")
  case None
  then show ?thesis by (simp add: getVisibleNavItems_def querySelectorAll_def)
next
  case (Some cs)
  have "map fst (filter (\<lambda>(i, ch). c \<in> set (tl ch)) (chainsL [] (doc st))) = elems cs"
    using descendants_by_chain [OF assms, of c "[]"] Some by (simp add: childNodes_def)
  moreover have "distinct (map fst (filter (\<lambda>(i, ch). c \<in> set (tl ch)) (chainsL [] (doc st))))"
    using assms by (intro distinct_map_filter) (simp add: fst_chainsL)
  ultimately have "distinct (elems cs)" by simp
  then show ?thesis by (simp add: getVisibleNavItems_def querySelectorAll_def Some)
qed

lemma arr_indexOf_nth:
  "distinct xs \<Longrightarrow> k < length xs \<Longrightarrow> arr_indexOf xs (xs ! k) = int k"
proof (induction xs arbitrary: k)
  case Nil
  then show ?case by simp
next
  case (Cons y ys)
  show ?case
  proof (cases k)
    case 0
    then show ?thesis by simp
  next
    case (Suc j)
    with Cons.prems have j: "j < length ys" "distinct ys" "ys ! j \<noteq> y"
      by auto
    from Cons.IH [OF j(2) j(1)] have "arr_indexOf ys (ys ! j) = int j" .
    then show ?thesis using Suc j(3) by (simp add: Let_def)
  qed
qed

lemma focusout'_attr:
  "getAttribute (focusout' t r st) b x
     = getAttribute st b x \<or> (x = t \<and> b = ''data-focused'' \<and> getAttribute (focusout' t r st) b x = None)"
  by (simp add: focusout'_def)

lemma focusout'_frame [simp]:
  "currentFocusedItem (focusout' t r st) = currentFocusedItem st"
  "activeElement (focusout' t r st) = activeElement st"
  "doc (focusout' t r st) = doc st"
  by (simp_all add: focusout'_def)

lemma focus'_attr:
  "getAttribute (focus focusout' i st) b x = getAttribute st b x
   \<or> (x \<noteq> i \<and> b = ''data-focused'' \<and> getAttribute (focus focusout' i st) b x = None)"
proof -
  from focus_cases [of focusout' i st]
  consider "focus focusout' i st = st"
    | "focus focusout' i st = st\<lparr>activeElement := Some i\<rparr>"
    | old where "old \<noteq> i" "focus focusout' i st = (focusout' old (Some i) st)\<lparr>activeElement := Some i\<rparr>"
    by blast
  then show ?thesis
  proof cases
    case 1
    then show ?thesis by simp
  next
    case 2
    then show ?thesis by simp
  next
    case 3
    then show ?thesis using focusout'_attr [of old "Some i" st b x] by auto
  qed
qed

lemma focus'_tabindex [simp]:
  "getAttribute (focus focusout' i st) ''tabindex'' x = getAttribute st ''tabindex'' x"
  using focus'_attr [of i st "''tabindex''" x] by simp

lemma focus'_frame [simp]:
  "currentFocusedItem (focus focusout' i st) = currentFocusedItem st"
  using focus_cases [of focusout' i st] by auto

text \<open>
  The attribute writes of \<^verbatim>\<open>setFocusedItem\<close> in the second module reset the previous
  cursor element also when it is the new one; the page they leave is the same.
\<close>

lemma cursorWrites':
  "setAttribute m ''data-focused'' ''true'' (setAttribute m ''tabindex'' ''0''
     (case currentFocusedItem st of
        Some c \<Rightarrow> removeAttribute c ''data-focused'' (setAttribute c ''tabindex'' ''-1'' st)
      | None \<Rightarrow> st))
   = cursorWrites m st"
proof (cases "currentFocusedItem st")
  case None
  then show ?thesis by (simp add: cursorWrites_def)
next
  case (Some c)
  show ?thesis
  proof (cases "c = m")
    case False
    then show ?thesis using Some by (simp add: cursorWrites_def)
  next
    case True
    have "(attributes (objs st m))(''tabindex'' \<mapsto> ''-1'', ''data-focused'' := None,
              ''tabindex'' \<mapsto> ''0'', ''data-focused'' \<mapsto> ''true'')
        = (attributes (objs st m))(''tabindex'' \<mapsto> ''0'', ''data-focused'' \<mapsto> ''true'')"
      by (rule ext) simp
    then show ?thesis
      using Some True by (simp add: cursorWrites_def setAttribute_def removeAttribute_def)
  qed
qed

lemma setFocusedItem'_cursorWrites:
  "setFocusedItem' m st = (focus focusout' m (cursorWrites m st))\<lparr>currentFocusedItem := Some m\<rparr>"
  by (simp add: setFocusedItem'_def Let_def cursorWrites')

lemma setFocusedItem'_moved: "cursorMovedTo st m (setFocusedItem' m st)"
proof -
  let ?w = "cursorWrites m st"
  have "getAttribute (focus focusout' m ?w) ''data-focused'' m = Some ''true''"
    using focus'_attr [of m ?w "''data-focused''" m] by (simp add: cursorWrites_marker)
  moreover have "getAttribute (focus focusout' m ?w) ''data-focused'' c = None"
    if "currentFocusedItem st = Some c" "c \<noteq> m" for c
    using focus'_attr [of m ?w "''data-focused''" c] that by (auto simp add: cursorWrites_marker)
  ultimately show ?thesis
    unfolding cursorMovedTo_def
    by (simp add: setFocusedItem'_cursorWrites cursorWrites_tabindex focus_active)
qed

lemma getVisibleNavItems_member:
  "i \<in> set (getVisibleNavItems st c) \<Longrightarrow> hasAttribute st ''data-nav-item'' i"
  by (auto simp add: getVisibleNavItems_def querySelectorAll_def split: option.splits)

lemma arrowDown_one:
  assumes "key e = ''ArrowDown''"
      and "closest st (hasClass st ''sidebar-nav'') tgt = Some nav"
      and "arr_indexOf (getVisibleNavItems st nav) tgt = int k"
  shows "handleNavItemKeydown ext e tgt st =
     (True,
      if Suc k < length (getVisibleNavItems st nav)
      then setFocusedItem (getVisibleNavItems st nav ! Suc k) st
      else (case querySelector st nav (hasClass st ''nav-section-header'') of
              Some firstHeader \<Rightarrow> focus focusout firstHeader st
            | None \<Rightarrow> st))"
proof -
  have "(int k < int (length (getVisibleNavItems st nav)) - 1)
      = (Suc k < length (getVisibleNavItems st nav))" by auto
  moreover have "nat (int k + 1) = Suc k" by simp
  ultimately show ?thesis
    using assms by (simp add: handleNavItemKeydown_def Let_def)
qed

lemma arrowDown_two:
  assumes "key e = ''ArrowDown''"
      and "closest st (hasClass st ''sidebar-nav'') (target e) = Some nav"
      and "arr_indexOf (getVisibleNavItems st nav) (target e) = int k"
      and "hasAttribute st ''data-nav-item'' (target e)"
      and "\<not> hasClass st ''nav-section-header'' (target e)"
  shows "handleNavKeydown ext e st =
     (True,
      if Suc k < length (getVisibleNavItems st nav)
      then setFocusedItem' (getVisibleNavItems st nav ! Suc k) st
      else st)"
proof -
  have "(int k < int (length (getVisibleNavItems st nav)) - 1)
      = (Suc k < length (getVisibleNavItems st nav))" by auto
  moreover have "nat (int k + 1) = Suc k" by simp
  ultimately show ?thesis
    using assms by (simp add: handleNavKeydown_def Let_def)
qed

text \<open>The dispatch of an \<open>ArrowDown\<close> on a nav item, in the two modules.\<close>

lemma keydown_arrow_item:
  assumes "key e = ''ArrowDown''"
      and "globalKeydownHandler st = Some (KeydownHandler n0 si)"
      and "\<not> isTextEntry st (target e)"
      and "\<not> hasClass st ''nav-section-header'' (target e)"
      and "hasAttribute st ''data-nav-item'' (target e)"
  shows "keydown ext e st = handleNavItemKeydown ext e (target e) st"
  using assms by (simp add: keydown_def createKeydownHandler_def)

lemma handleGlobalKeydown_arrow:
  "key e = ''ArrowDown'' \<Longrightarrow> handleGlobalKeydown e s = (False, s)"
  by (simp add: handleGlobalKeydown_def)

lemma keydown'_arrow_inside:
  assumes "key e = ''ArrowDown''"
      and "navKeydownHandler st = Some HandleNavKeydown"
      and "currentNav st = Some cn" and "within st (target e) cn"
  shows "keydown' ext e st = (fst (handleNavKeydown ext e st), snd (handleNavKeydown ext e st))"
  using assms
  by (simp add: keydown'_def within_def Let_def handleGlobalKeydown_arrow split: option.splits)

lemma keydown'_arrow_outside:
  assumes "key e = ''ArrowDown''"
      and "currentNav st = Some cn" and "\<not> within st (target e) cn"
  shows "keydown' ext e st = (False, st)"
  using assms
  by (simp add: keydown'_def within_def Let_def handleGlobalKeydown_arrow split: option.splits)

text \<open>
  Claim C6, as amended. The key is \<open>ArrowDown\<close> and the target is a nav item, the
  \<open>k\<close>-th visible item of its nav. In the module with one global listener (and a
  target that is not an \<open>input\<close> or \<open>textarea\<close> element) the default action is
  prevented. When a visible item follows, the cursor moves to it: the next item gets
  \<open>tabindex\<close> 0 and the focused marker and becomes the cursor, it holds the focus
  afterwards when the browser can focus it, the element that held the cursor before
  gets \<open>tabindex\<close> -1 and loses the marker, and no other \<open>tabindex\<close> changes
  (so the target is reset exactly when it held the cursor). When the target is the
  last visible item, the first section header of the nav, if there is one and it can
  be focused, holds the focus afterwards, cursor and \<open>tabindex\<close> values being as
  before; without a header the page is unchanged. In the module with a global and a
  per-nav listener, a target inside the nav the module was initialised with gets the
  same cursor move when a visible item follows, and nothing but the prevented default
  when it is the last visible item; for a target outside that nav nothing happens.
\<close>

theorem arrow_down_on_item:
  assumes key: "key e = ''ArrowDown''"
      and d: "distinct (elems (doc st))"
      and nh: "\<not> hasClass st ''nav-section-header'' (target e)"
      and nav: "closest st (hasClass st ''sidebar-nav'') (target e) = Some nav"
      and k: "k < length (getVisibleNavItems st nav)" "getVisibleNavItems st nav ! k = target e"
  shows "(globalKeydownHandler st = Some (KeydownHandler n0 si) \<and> \<not> isTextEntry st (target e) \<longrightarrow>
            fst (keydown ext e st)
            \<and> (Suc k < length (getVisibleNavItems st nav) \<longrightarrow>
                 cursorMovedTo st (getVisibleNavItems st nav ! Suc k) (snd (keydown ext e st)))
            \<and> (Suc k = length (getVisibleNavItems st nav) \<longrightarrow>
                 (case querySelector st nav (hasClass st ''nav-section-header'') of
                    None \<Rightarrow> snd (keydown ext e st) = st
                  | Some h \<Rightarrow>
                      activeElement (snd (keydown ext e st))
                        = (if focusable st h then Some h else activeElement st)
                      \<and> currentFocusedItem (snd (keydown ext e st)) = currentFocusedItem st
                      \<and> (\<forall>x. getAttribute (snd (keydown ext e st)) ''tabindex'' x
                                = getAttribute st ''tabindex'' x))))
       \<and> (navKeydownHandler st = Some HandleNavKeydown \<and> currentNav st = Some cn
            \<and> within st (target e) cn \<longrightarrow>
            fst (keydown' ext e st)
            \<and> (Suc k < length (getVisibleNavItems st nav) \<longrightarrow>
                 cursorMovedTo st (getVisibleNavItems st nav ! Suc k) (snd (keydown' ext e st)))
            \<and> (Suc k = length (getVisibleNavItems st nav) \<longrightarrow> snd (keydown' ext e st) = st))
       \<and> (currentNav st = Some cn \<and> \<not> within st (target e) cn \<longrightarrow>
            keydown' ext e st = (False, st))"
proof -
  let ?items = "getVisibleNavItems st nav"
  have di: "distinct ?items" using d by (rule distinct_getVisibleNavItems)
  have idx: "arr_indexOf ?items (target e) = int k"
    using arr_indexOf_nth [OF di k(1)] k(2) by simp
  have item: "hasAttribute st ''data-nav-item'' (target e)"
    using k by (intro getVisibleNavItems_member [of "target e" st nav]) (metis nth_mem)
  note one = arrowDown_one [OF key nav idx, of ext]
  note two = arrowDown_two [OF key nav idx item nh, of ext]
  have a: "globalKeydownHandler st = Some (KeydownHandler n0 si) \<and> \<not> isTextEntry st (target e) \<longrightarrow>
            fst (keydown ext e st)
            \<and> (Suc k < length ?items \<longrightarrow>
                 cursorMovedTo st (?items ! Suc k) (snd (keydown ext e st)))
            \<and> (Suc k = length ?items \<longrightarrow>
                 (case querySelector st nav (hasClass st ''nav-section-header'') of
                    None \<Rightarrow> snd (keydown ext e st) = st
                  | Some h \<Rightarrow>
                      activeElement (snd (keydown ext e st))
                        = (if focusable st h then Some h else activeElement st)
                      \<and> currentFocusedItem (snd (keydown ext e st)) = currentFocusedItem st
                      \<and> (\<forall>x. getAttribute (snd (keydown ext e st)) ''tabindex'' x
                                = getAttribute st ''tabindex'' x)))"
  proof
    assume h: "globalKeydownHandler st = Some (KeydownHandler n0 si) \<and> \<not> isTextEntry st (target e)"
    have kd: "keydown ext e st = handleNavItemKeydown ext e (target e) st"
      using key h nh item by (simp add: keydown_arrow_item)
    show "fst (keydown ext e st)
            \<and> (Suc k < length ?items \<longrightarrow>
                 cursorMovedTo st (?items ! Suc k) (snd (keydown ext e st)))
            \<and> (Suc k = length ?items \<longrightarrow>
                 (case querySelector st nav (hasClass st ''nav-section-header'') of
                    None \<Rightarrow> snd (keydown ext e st) = st
                  | Some h \<Rightarrow>
                      activeElement (snd (keydown ext e st))
                        = (if focusable st h then Some h else activeElement st)
                      \<and> currentFocusedItem (snd (keydown ext e st)) = currentFocusedItem st
                      \<and> (\<forall>x. getAttribute (snd (keydown ext e st)) ''tabindex'' x
                                = getAttribute st ''tabindex'' x)))"
      unfolding kd one
      by (simp add: setFocusedItem_moved focus_active split: option.splits)
  qed
  have b: "navKeydownHandler st = Some HandleNavKeydown \<and> currentNav st = Some cn
            \<and> within st (target e) cn \<longrightarrow>
            fst (keydown' ext e st)
            \<and> (Suc k < length ?items \<longrightarrow>
                 cursorMovedTo st (?items ! Suc k) (snd (keydown' ext e st)))
            \<and> (Suc k = length ?items \<longrightarrow> snd (keydown' ext e st) = st)"
  proof
    assume h: "navKeydownHandler st = Some HandleNavKeydown \<and> currentNav st = Some cn
            \<and> within st (target e) cn"
    have kd: "keydown' ext e st = (fst (handleNavKeydown ext e st), snd (handleNavKeydown ext e st))"
      using key h by (simp add: keydown'_arrow_inside)
    show "fst (keydown' ext e st)
            \<and> (Suc k < length ?items \<longrightarrow>
                 cursorMovedTo st (?items ! Suc k) (snd (keydown' ext e st)))
            \<and> (Suc k = length ?items \<longrightarrow> snd (keydown' ext e st) = st)"
      unfolding kd two by (simp add: setFocusedItem'_moved)
  qed
  have c: "currentNav st = Some cn \<and> \<not> within st (target e) cn \<longrightarrow>
            keydown' ext e st = (False, st)"
    using key by (simp add: keydown'_arrow_outside)
  from a b c show ?thesis by blast
qed

text \<open>
  The claim as stated fails in three ways. In the module with a global and a per-nav
  listener, \<open>ArrowDown\<close> on the last visible item leaves the focus there although
  the nav has a section header that could take the focus. On the page with two navs,
  where the module is initialised for the drawer and the focus is on the first link of
  the other nav, the module with one global listener moves the focus to the next link
  but the old item has no \<open>tabindex\<close> afterwards (it never held the cursor, which
  was on a link of the drawer); and the other module does nothing at all: the focus
  and the cursor stay where they were.
\<close>

theorem arrow_down_counterexample:
  "getVisibleNavItems (readyPage' 11) 4 = [6, 9, 10, 11]
   \<and> within (readyPage' 11) 11 4
   \<and> querySelector (readyPage' 11) 4 (hasClass (readyPage' 11) ''nav-section-header'') = Some 8
   \<and> focusable (readyPage' 11) 8
   \<and> fst (keydown' inertExternals \<lparr>key = ''ArrowDown'', target = 11\<rparr> (readyPage' 11))
   \<and> activeElement (snd (keydown' inertExternals \<lparr>key = ''ArrowDown'', target = 11\<rparr>
        (readyPage' 11))) = Some 11
   \<and> getVisibleNavItems (twoNavReady 24) 22 = [24, 25]
   \<and> currentFocusedItem (twoNavReady 24) = Some 6
   \<and> activeElement (snd (keydown inertExternals \<lparr>key = ''ArrowDown'', target = 24\<rparr>
        (twoNavReady 24))) = Some 25
   \<and> getAttribute (snd (keydown inertExternals \<lparr>key = ''ArrowDown'', target = 24\<rparr>
        (twoNavReady 24))) ''tabindex'' 24 = None
   \<and> getVisibleNavItems (twoNavReady' 24) 22 = [24, 25]
   \<and> \<not> fst (keydown' inertExternals \<lparr>key = ''ArrowDown'', target = 24\<rparr> (twoNavReady' 24))
   \<and> activeElement (snd (keydown' inertExternals \<lparr>key = ''ArrowDown'', target = 24\<rparr>
        (twoNavReady' 24))) = Some 24
   \<and> currentFocusedItem (snd (keydown' inertExternals \<lparr>key = ''ArrowDown'', target = 24\<rparr>
        (twoNavReady' 24))) = Some 6"
  by (simp only: ready_nf) code_simp

theorem arrow_down_on_item_witness:
  "key \<lparr>key = ''ArrowDown'', target = 6\<rparr> = ''ArrowDown''
   \<and> distinct (elems (doc (readyPage 6)))
   \<and> closest (readyPage 6) (hasClass (readyPage 6) ''sidebar-nav'') 6 = Some 4
   \<and> getVisibleNavItems (readyPage 6) 4 = [6, 9, 10, 11]
   \<and> globalKeydownHandler (readyPage 6) = Some (KeydownHandler 4 (Some 3))
   \<and> fst (keydown inertExternals \<lparr>key = ''ArrowDown'', target = 6\<rparr> (readyPage 6))
   \<and> cursorMovedTo (readyPage 6) 9
        (snd (keydown inertExternals \<lparr>key = ''ArrowDown'', target = 6\<rparr> (readyPage 6)))
   \<and> querySelector (readyPage 11) 4 (hasClass (readyPage 11) ''nav-section-header'') = Some 8
   \<and> focusable (readyPage 11) 8
   \<and> activeElement (snd (keydown inertExternals \<lparr>key = ''ArrowDown'', target = 11\<rparr>
        (readyPage 11))) = Some 8
   \<and> navKeydownHandler (readyPage' 6) = Some HandleNavKeydown
   \<and> currentNav (readyPage' 6) = Some 4
   \<and> within (readyPage' 6) 6 4
   \<and> cursorMovedTo (readyPage' 6) 9
        (snd (keydown' inertExternals \<lparr>key = ''ArrowDown'', target = 6\<rparr> (readyPage' 6)))
   \<and> snd (keydown' inertExternals \<lparr>key = ''ArrowDown'', target = 11\<rparr> (readyPage' 11))
       = readyPage' 11
   \<and> currentNav (twoNavReady' 24) = Some 4
   \<and> \<not> within (twoNavReady' 24) 24 4
   \<and> keydown' inertExternals \<lparr>key = ''ArrowDown'', target = 24\<rparr> (twoNavReady' 24)
       = (False, twoNavReady' 24)"
proof -
  have i1: "getVisibleNavItems (readyPage 6) 4 = [6, 9, 10, 11]" by (simp only: ready_nf) code_simp
  have i2: "getVisibleNavItems (readyPage 11) 4 = [6, 9, 10, 11]" by (simp only: ready_nf) code_simp
  have i3: "getVisibleNavItems (readyPage' 6) 4 = [6, 9, 10, 11]" by (simp only: ready_nf) code_simp
  have i4: "getVisibleNavItems (readyPage' 11) 4 = [6, 9, 10, 11]" by (simp only: ready_nf) code_simp
  have i5: "getVisibleNavItems (twoNavReady' 24) 22 = [24, 25]" by (simp only: ready_nf) code_simp
  have d1: "distinct (elems (doc (readyPage 6)))" by (simp only: ready_nf) code_simp
  have d2: "distinct (elems (doc (readyPage 11)))" by (simp only: ready_nf) code_simp
  have d3: "distinct (elems (doc (readyPage' 6)))" by (simp only: ready_nf) code_simp
  have d4: "distinct (elems (doc (readyPage' 11)))" by (simp only: ready_nf) code_simp
  have d5: "distinct (elems (doc (twoNavReady' 24)))" by (simp only: ready_nf) code_simp
  have c1: "closest (readyPage 6) (hasClass (readyPage 6) ''sidebar-nav'') 6 = Some 4" by (simp only: ready_nf) code_simp
  have c2: "closest (readyPage 11) (hasClass (readyPage 11) ''sidebar-nav'') 11 = Some 4"
    by (simp only: ready_nf) code_simp
  have c3: "closest (readyPage' 6) (hasClass (readyPage' 6) ''sidebar-nav'') 6 = Some 4"
    by (simp only: ready_nf) code_simp
  have c4: "closest (readyPage' 11) (hasClass (readyPage' 11) ''sidebar-nav'') 11 = Some 4"
    by (simp only: ready_nf) code_simp
  have c5: "closest (twoNavReady' 24) (hasClass (twoNavReady' 24) ''sidebar-nav'') 24 = Some 22"
    by (simp only: ready_nf) code_simp
  have h1: "\<not> hasClass (readyPage 6) ''nav-section-header'' 6" by (simp only: ready_nf) code_simp
  have h2: "\<not> hasClass (readyPage 11) ''nav-section-header'' 11" by (simp only: ready_nf) code_simp
  have h3: "\<not> hasClass (readyPage' 6) ''nav-section-header'' 6" by (simp only: ready_nf) code_simp
  have h4: "\<not> hasClass (readyPage' 11) ''nav-section-header'' 11" by (simp only: ready_nf) code_simp
  have h5: "\<not> hasClass (twoNavReady' 24) ''nav-section-header'' 24" by (simp only: ready_nf) code_simp
  have g1: "globalKeydownHandler (readyPage 6) = Some (KeydownHandler 4 (Some 3))" by (simp only: ready_nf) code_simp
  have g2: "globalKeydownHandler (readyPage 11) = Some (KeydownHandler 4 (Some 3))" by (simp only: ready_nf) code_simp
  have t1: "\<not> isTextEntry (readyPage 6) 6" by (simp only: ready_nf) code_simp
  have t2: "\<not> isTextEntry (readyPage 11) 11" by (simp only: ready_nf) code_simp
  have q: "querySelector (readyPage 11) 4 (hasClass (readyPage 11) ''nav-section-header'') = Some 8"
    by (simp only: ready_nf) code_simp
  have f: "focusable (readyPage 11) 8" by (simp only: ready_nf) code_simp
  have n3: "navKeydownHandler (readyPage' 6) = Some HandleNavKeydown" by (simp only: ready_nf) code_simp
  have n4: "navKeydownHandler (readyPage' 11) = Some HandleNavKeydown" by (simp only: ready_nf) code_simp
  have u3: "currentNav (readyPage' 6) = Some 4" by (simp only: ready_nf) code_simp
  have u4: "currentNav (readyPage' 11) = Some 4" by (simp only: ready_nf) code_simp
  have u5: "currentNav (twoNavReady' 24) = Some 4" by (simp only: ready_nf) code_simp
  have w3: "within (readyPage' 6) 6 4" by (simp only: ready_nf) code_simp
  have w4: "within (readyPage' 11) 11 4" by (simp only: ready_nf) code_simp
  have w5: "\<not> within (twoNavReady' 24) 24 4" by (simp only: ready_nf) code_simp
  have a1: "fst (keydown inertExternals \<lparr>key = ''ArrowDown'', target = 6\<rparr> (readyPage 6))
      \<and> cursorMovedTo (readyPage 6) 9
        (snd (keydown inertExternals \<lparr>key = ''ArrowDown'', target = 6\<rparr> (readyPage 6)))"
    using arrow_down_on_item [of "\<lparr>key = ''ArrowDown'', target = 6\<rparr>" "readyPage 6" 4 0 4
        "Some 3" inertExternals 4]
    by (simp add: i1 d1 c1 h1 g1 t1)
  have a2: "activeElement (snd (keydown inertExternals \<lparr>key = ''ArrowDown'', target = 11\<rparr>
        (readyPage 11))) = Some 8"
    using arrow_down_on_item [of "\<lparr>key = ''ArrowDown'', target = 11\<rparr>" "readyPage 11" 4 3 4
        "Some 3" inertExternals 4]
    by (simp add: i2 d2 c2 h2 g2 t2 q f)
  have a3: "cursorMovedTo (readyPage' 6) 9
        (snd (keydown' inertExternals \<lparr>key = ''ArrowDown'', target = 6\<rparr> (readyPage' 6)))"
    using arrow_down_on_item [of "\<lparr>key = ''ArrowDown'', target = 6\<rparr>" "readyPage' 6" 4 0 4
        "Some 3" inertExternals 4]
    by (simp add: i3 d3 c3 h3 n3 u3 w3)
  have a4: "snd (keydown' inertExternals \<lparr>key = ''ArrowDown'', target = 11\<rparr> (readyPage' 11))
       = readyPage' 11"
    using arrow_down_on_item [of "\<lparr>key = ''ArrowDown'', target = 11\<rparr>" "readyPage' 11" 4 3 4
        "Some 3" inertExternals 4]
    by (simp add: i4 d4 c4 h4 n4 u4 w4)
  have a5: "keydown' inertExternals \<lparr>key = ''ArrowDown'', target = 24\<rparr> (twoNavReady' 24)
       = (False, twoNavReady' 24)"
    using arrow_down_on_item [of "\<lparr>key = ''ArrowDown'', target = 24\<rparr>" "twoNavReady' 24" 22 0 4
        "Some 3" inertExternals 4]
    by (simp add: i5 d5 c5 h5 u5 w5)
  show ?thesis
    using a1 a2 a3 a4 a5 by (simp add: d1 c1 i1 g1 q f n3 u3 w3 u5 w5)
qed

section \<open>Normalization and the stripping of markers\<close>

lemma mergeText_Text_Text:
  "mergeText (Text x # Text y # R) = mergeText (Text (x @ y) # R)"
  by (cases "mergeText R" rule: mergeText.cases) (auto split: list.splits node.splits)

lemma mergeText_Text_cases:
  "s \<noteq> [] \<Longrightarrow> \<exists>t r. mergeText (Text s # R) = Text (s @ t) # r"
  by (auto split: list.splits node.splits)

lemma mergeText_map_fix:
  assumes f: "\<And>s. f (Text s) = Text s"
  shows "mergeText (map f (mergeText Y)) = mergeText (map f Y)"
proof (induction Y rule: forest_induct)
  case Nil
  show ?case by simp
next
  case (Text s ks)
  show ?case
  proof (cases "s = []")
    case True
    then show ?thesis using Text f by simp
  next
    case False
    show ?thesis
    proof (cases "mergeText ks")
      case Nil
      then show ?thesis using Text False f by simp
    next
      case (Cons k r)
      show ?thesis
      proof (cases k)
        case (Text s')
        have ih: "mergeText (Text s' # map f r) = mergeText (map f ks)"
          using Text.IH Cons Text f by simp
        have "mergeText (map f (mergeText (Text s # ks))) = mergeText (Text (s @ s') # map f r)"
          using False Cons Text f by simp
        also have "\<dots> = mergeText (Text s # Text s' # map f r)"
          by (simp only: mergeText_Text_Text)
        also have "\<dots> = mergeText (Text s # map f ks)"
          using False ih by simp
        finally show ?thesis using f by simp
      next
        case (Elem i cs)
        then show ?thesis using Text.IH Cons False f by simp
      qed
    qed
  qed
next
  case (Elem i cs ks)
  show ?case
  proof (cases "f (Elem i cs)")
    case (Text s)
    then show ?thesis using Elem.IH(2) by (cases "s = []") simp_all
  next
    case Elem2: (Elem j ds)
    then show ?thesis using Elem.IH(2) by simp
  qed
qed

lemma normalize_Text [simp]: "normalize (Text s) = Text s"
  by simp

lemma normalize_idem: "normalize (normalize k) = normalize k"
proof (induction k)
  case (Text s)
  show ?case by simp
next
  case (Elem i ks)
  have "mergeText (map normalize (mergeText (map normalize ks)))
      = mergeText (map normalize (map normalize ks))"
    by (rule mergeText_map_fix) simp
  also have "\<dots> = mergeText (map normalize ks)"
    using Elem.IH by (simp cong: map_cong)
  finally show ?case by simp
qed

lemma normalizeL_idem: "normalizeL (normalizeL ks) = normalizeL ks"
proof -
  have "mergeText (map normalize (mergeText (map normalize ks)))
      = mergeText (map normalize (map normalize ks))"
    by (rule mergeText_map_fix) simp
  then show ?thesis
    by (simp add: normalizeL_def normalize_idem cong: map_cong)
qed

lemma normalizeL_simps [simp]:
  "normalizeL [] = []"
  "normalizeL (Elem i cs # ks) = Elem i (normalizeL cs) # normalizeL ks"
  by (simp_all add: normalizeL_def)

lemma normalizeL_Text: "normalizeL (Text s # ks) = mergeText (Text s # normalizeL ks)"
  unfolding normalizeL_def
  using mergeText_map_fix [of "\<lambda>k. k" "Text s # map normalize ks"]
  by (cases "s = []") (auto split: list.splits node.splits)

lemma textContentL_simps [simp]:
  "textContentL [] = []"
  "textContentL (k # ks) = textContent k @ textContentL ks"
  "textContentL (xs @ ys) = textContentL xs @ textContentL ys"
  by (simp_all add: textContentL_def)

lemma textContent_Elem [simp]: "textContent (Elem i ks) = textContentL ks"
  by (simp add: textContentL_def)

declare textContent.simps(2) [simp del]

lemma mergeText_idem: "mergeText (mergeText ks) = mergeText ks"
  using mergeText_map_fix [of "\<lambda>k. k" ks] by simp

lemma normalized_child: "normalized ks \<Longrightarrow> Elem i cs \<in> set ks \<Longrightarrow> normalized cs"
  by (induction ks rule: normalized.induct) auto

lemma mergeText_normalized:
  "\<forall>k \<in> set Y. (case k of Text s \<Rightarrow> True | Elem i cs \<Rightarrow> normalized cs)
     \<Longrightarrow> normalized (mergeText Y)"
proof (induction Y rule: forest_induct)
  case Nil
  show ?case by simp
next
  case (Text s ks)
  then have ih: "normalized (mergeText ks)" by simp
  show ?case
  proof (cases "s = []")
    case True
    then show ?thesis using ih by simp
  next
    case False
    show ?thesis
    proof (cases "mergeText ks")
      case Nil
      then show ?thesis using False by simp
    next
      case (Cons k r)
      then show ?thesis using False ih by (cases k) (auto split: list.splits node.splits)
    qed
  qed
next
  case (Elem i cs ks)
  then show ?case by simp
qed

lemma normalize_Elem: "normalize (Elem i cs) = Elem i (normalizeL cs)"
  by (simp add: normalizeL_def)

lemma normalized_normalizeL: "normalized (normalizeL ks)"
proof (induction ks rule: forest_induct)
  case Nil
  show ?case by simp
next
  case (Text s ks)
  have "normalizeL (Text s # ks) = mergeText (Text s # normalizeL ks)"
    by (rule normalizeL_Text)
  moreover have "normalized (mergeText (Text s # normalizeL ks))"
    using Text.IH by (intro mergeText_normalized) (auto dest: normalized_child split: node.splits)
  ultimately show ?case by simp
next
  case (Elem i cs ks)
  then show ?case by simp
qed

lemma normalized_mergeText_fix: "normalized ks \<Longrightarrow> mergeText ks = ks"
  by (induction ks rule: normalized.induct) (auto split: list.splits node.splits)

lemma normalized_fix: "normalized ks \<Longrightarrow> normalizeL ks = ks"
proof (induction ks rule: forest_induct)
  case Nil
  show ?case by simp
next
  case (Text s ks)
  then have "normalizeL ks = ks" by simp
  then have "normalizeL (Text s # ks) = mergeText (Text s # ks)"
    using normalizeL_Text [of s ks] by simp
  then show ?case using normalized_mergeText_fix [OF Text.prems] by simp
next
  case (Elem i cs ks)
  then show ?case by simp
qed

lemma elems_append [simp]: "elems (xs @ ys) = elems xs @ elems ys"
  by (simp add: elems_def subtreesL_def)

lemma elems_mergeText [simp]: "elems (mergeText ks) = elems ks"
proof (induction ks rule: mergeText.induct)
  case 1
  show ?case by simp
next
  case (2 s ks)
  then show ?case by (cases "mergeText ks" rule: mergeText.cases) auto
next
  case (3 i cs ks)
  then show ?case by simp
qed

lemma elems_normalizeL [simp]: "elems (normalizeL ks) = elems ks"
proof (induction ks rule: forest_induct)
  case Nil
  show ?case by simp
next
  case (Text s ks)
  have "elems (normalizeL (Text s # ks)) = elems (Text s # normalizeL ks)"
    unfolding normalizeL_Text by (rule elems_mergeText)
  then show ?case using Text by simp
next
  case (Elem i cs ks)
  then show ?case by simp
qed

lemma textContentL_mergeText [simp]: "textContentL (mergeText ks) = textContentL ks"
proof (induction ks rule: mergeText.induct)
  case 1
  show ?case by simp
next
  case (2 s ks)
  then show ?case by (cases "mergeText ks" rule: mergeText.cases) auto
next
  case (3 i cs ks)
  then show ?case by simp
qed

lemma textContentL_normalizeL [simp]: "textContentL (normalizeL ks) = textContentL ks"
proof (induction ks rule: forest_induct)
  case Nil
  show ?case by simp
next
  case (Text s ks)
  have "textContentL (normalizeL (Text s # ks)) = textContentL (Text s # normalizeL ks)"
    unfolding normalizeL_Text by (rule textContentL_mergeText)
  then show ?case using Text by simp
next
  case (Elem i cs ks)
  then show ?case by simp
qed

lemma textContent_normalize [simp]: "textContent (normalize k) = textContent k"
  by (cases k) (simp_all add: normalize_Elem del: normalize.simps(2))

lemma unmark_replaceChild:
  "n \<le> m \<Longrightarrow> map (unmark n) (replaceChild m ks) = map (unmark n) ks"
proof -
  assume nm: "n \<le> m"
  have "unmark n (if isElem m k then Text (textContent k) else k) = unmark n k" for k
    using nm by (cases k) auto
  then show ?thesis by (simp add: replaceChild_def)
qed

lemma normalize_unmark_normalize:
  "normalize (unmark n (normalize k)) = normalize (unmark n k)"
proof (induction k)
  case (Text s)
  show ?case by simp
next
  case (Elem i cs)
  show ?case
  proof (cases "n \<le> i")
    case True
    have "textContent (normalize (Elem i cs)) = textContent (Elem i cs)"
      by (rule textContent_normalize)
    then show ?thesis using True by (simp add: normalize_Elem del: normalize.simps(2))
  next
    case False
    have "mergeText (map (\<lambda>k. normalize (unmark n k)) (mergeText (map normalize cs)))
        = mergeText (map (\<lambda>k. normalize (unmark n k)) (map normalize cs))"
      by (rule mergeText_map_fix) simp
    also have "\<dots> = mergeText (map (\<lambda>k. normalize (unmark n k)) cs)"
      using Elem.IH by (simp add: comp_def cong: map_cong)
    finally show ?thesis using False by (simp add: comp_def)
  qed
qed

lemma canon_normalizeL: "canon n (normalizeL X) = canon n X"
proof -
  have "mergeText (map (\<lambda>k. normalize (unmark n k)) (mergeText (map normalize X)))
      = mergeText (map (\<lambda>k. normalize (unmark n k)) (map normalize X))"
    by (rule mergeText_map_fix) simp
  then show ?thesis
    by (simp add: canon_def normalizeL_def comp_def normalize_unmark_normalize)
qed

lemma textContentL_replaceChild [simp]: "textContentL (replaceChild m ks) = textContentL ks"
  by (induction ks) (simp_all add: replaceChild_def)

lemma textContentL_map:
  "(\<And>k. k \<in> set ks \<Longrightarrow> textContent (f k) = textContent k)
     \<Longrightarrow> textContentL (map f ks) = textContentL ks"
  by (induction ks) simp_all

lemma textContent_clearOne [simp]: "textContent (clearOne m k) = textContent k"
proof (induction k)
  case (Text s)
  show ?case by simp
next
  case (Elem p cs)
  then have "textContentL (map (clearOne m) cs) = textContentL cs"
    by (intro textContentL_map) simp
  then show ?case by simp
qed

lemma textContentL_clearOneL [simp]: "textContentL (clearOneL m ks) = textContentL ks"
  by (simp add: clearOneL_def textContentL_map)

lemma clearOne_Elem: "clearOne m (Elem p cs) = Elem p (clearOneL m cs)"
  by (simp add: clearOneL_def)

lemma canon_unmark: "canon n ks = normalizeL (map (unmark n) ks)"
  by (simp add: canon_def normalizeL_def comp_def)

lemma normalize_unmark_Elem:
  "\<not> n \<le> p \<Longrightarrow> normalize (unmark n (Elem p cs)) = Elem p (canon n cs)"
  by (simp add: canon_def comp_def)

lemma normalize_unmark_clearOne:
  "n \<le> m \<Longrightarrow> normalize (unmark n (clearOne m k)) = normalize (unmark n k)"
proof (induction k)
  case (Text s)
  show ?case by simp
next
  case (Elem p cs)
  show ?case
  proof (cases "n \<le> p")
    case True
    have "textContent (clearOne m (Elem p cs)) = textContent (Elem p cs)"
      by (rule textContent_clearOne)
    then show ?thesis using True by (simp add: clearOne_Elem del: clearOne.simps)
  next
    case False
    have "canon n (clearOneL m cs) = canon n cs"
    proof (cases "list_ex (isElem m) cs")
      case True
      then have "canon n (clearOneL m cs) = canon n (replaceChild m cs)"
        by (simp add: clearOneL_def canon_normalizeL)
      then show ?thesis
        using unmark_replaceChild [OF Elem.prems, of cs] by (simp add: canon_unmark)
    next
      case False
      then have "canon n (clearOneL m cs)
          = mergeText (map (\<lambda>k. normalize (unmark n (clearOne m k))) cs)"
        by (simp add: clearOneL_def canon_def comp_def)
      also have "\<dots> = mergeText (map (\<lambda>k. normalize (unmark n k)) cs)"
        using Elem.IH Elem.prems by (simp cong: map_cong)
      finally show ?thesis by (simp add: canon_def)
    qed
    then show ?thesis
      using normalize_unmark_Elem [OF False, of "clearOneL m cs"]
        normalize_unmark_Elem [OF False, of cs]
      by (simp only: clearOne_Elem)
  qed
qed

lemma canon_clearOneL: "n \<le> m \<Longrightarrow> canon n (clearOneL m ks) = canon n ks"
proof (cases "list_ex (isElem m) ks")
  case True
  assume nm: "n \<le> m"
  from True have "canon n (clearOneL m ks) = canon n (replaceChild m ks)"
    by (simp add: clearOneL_def canon_normalizeL)
  then show ?thesis
    using unmark_replaceChild [OF nm, of ks] by (simp add: canon_unmark)
next
  case False
  assume nm: "n \<le> m"
  from False have "canon n (clearOneL m ks)
      = mergeText (map (\<lambda>k. normalize (unmark n (clearOne m k))) ks)"
    by (simp add: clearOneL_def canon_def comp_def)
  then show ?thesis
    using nm by (simp add: canon_def normalize_unmark_clearOne)
qed

lemma startsText_simps [simp]:
  "startsText [] = False"
  "startsText (Text t # r) = True"
  "startsText (Elem i cs # r) = False"
  by (simp_all add: startsText_def)

lemma normalized_Text:
  "normalized (Text s # ks) = (s \<noteq> [] \<and> \<not> startsText ks \<and> normalized ks)"
  by (auto simp add: startsText_def split: list.splits node.splits)

lemma startsText_map_clearOne [simp]: "startsText (map (clearOne m) ks) = startsText ks"
  by (cases ks rule: mergeText.cases) simp_all

lemma normalized_clearOne:
  "normalized ks \<Longrightarrow> normalized (map (clearOne m) ks) \<and> normalized (clearOneL m ks)"
proof (induction ks rule: forest_induct)
  case Nil
  show ?case by (simp add: clearOneL_def)
next
  case (Text s ks)
  then have "normalized (map (clearOne m) (Text s # ks))"
    by (simp add: normalized_Text del: normalized.simps(2))
  then show ?case
    by (cases "list_ex (isElem m) (Text s # ks)")
       (simp_all add: clearOneL_def normalized_normalizeL del: normalized.simps(2))
next
  case (Elem i cs ks)
  then have "normalized (map (clearOne m) (Elem i cs # ks))"
    by (simp add: clearOne_Elem del: clearOne.simps)
  then show ?case
    by (cases "list_ex (isElem m) (Elem i cs # ks)")
       (simp_all add: clearOneL_def normalized_normalizeL del: clearOne.simps)
qed

lemma elems_replaceChild_subset: "set (elems (replaceChild m ks)) \<subseteq> set (elems ks)"
  by (induction ks rule: forest_induct) (auto simp add: replaceChild_def)

lemma distinct_elems_replaceChild:
  "distinct (elems ks) \<Longrightarrow> distinct (elems (replaceChild m ks))"
proof (induction ks rule: forest_induct)
  case Nil
  show ?case by (simp add: replaceChild_def)
next
  case (Text s ks)
  then show ?case by (simp add: replaceChild_def)
next
  case (Elem i cs ks)
  have sub: "set (elems (replaceChild m ks)) \<subseteq> set (elems ks)"
    by (rule elems_replaceChild_subset)
  have r: "replaceChild m (Elem i cs # ks)
      = (if i = m then Text (textContentL cs) else Elem i cs) # replaceChild m ks"
    by (simp add: replaceChild_def)
  show ?case
    using Elem sub unfolding r by (cases "i = m") auto
qed

lemma replaceChild_removes:
  "distinct (elems ks) \<Longrightarrow> list_ex (isElem m) ks \<Longrightarrow> m \<notin> set (elems (replaceChild m ks))"
proof (induction ks rule: forest_induct)
  case Nil
  then show ?case by simp
next
  case (Text s ks)
  then show ?case by (simp add: replaceChild_def)
next
  case (Elem i cs ks)
  have sub: "set (elems (replaceChild m ks)) \<subseteq> set (elems ks)"
    by (rule elems_replaceChild_subset)
  have r: "replaceChild m (Elem i cs # ks)
      = (if i = m then Text (textContentL cs) else Elem i cs) # replaceChild m ks"
    by (simp add: replaceChild_def)
  show ?case
  proof (cases "i = m")
    case True
    then show ?thesis using Elem.prems sub unfolding r by auto
  next
    case False
    with Elem.prems have ex: "list_ex (isElem m) ks" by simp
    then have "m \<in> set (elems ks)"
      by (induction ks rule: forest_induct) auto
    then have "m \<notin> set (elems cs)" using Elem.prems(1) by auto
    moreover have "m \<notin> set (elems (replaceChild m ks))"
      using Elem.IH(2) Elem.prems(1) ex by simp
    ultimately show ?thesis using False unfolding r by simp
  qed
qed

lemma elems_clearOne:
  "set (elems (map (clearOne m) ks)) \<subseteq> set (elems ks)
   \<and> set (elems (clearOneL m ks)) \<subseteq> set (elems ks)
   \<and> (distinct (elems ks) \<longrightarrow>
        distinct (elems (map (clearOne m) ks)) \<and> distinct (elems (clearOneL m ks))
        \<and> (\<not> list_ex (isElem m) ks \<longrightarrow> m \<notin> set (elems (map (clearOne m) ks)))
        \<and> m \<notin> set (elems (clearOneL m ks)))"
proof (induction ks rule: forest_induct)
  case Nil
  show ?case by (simp add: clearOneL_def replaceChild_def)
next
  case (Text s ks)
  have a: "list_ex (isElem m) (Text s # ks) = list_ex (isElem m) ks" by simp
  have b: "replaceChild m (Text s # ks) = Text s # replaceChild m ks"
    by (simp add: replaceChild_def)
  show ?case
    using Text
    by (cases "list_ex (isElem m) ks") (simp_all add: clearOneL_def b)
next
  case (Elem i cs ks)
  let ?all = "Elem i cs # ks"
  have m1: "set (elems (map (clearOne m) ?all)) \<subseteq> set (elems ?all)"
    using Elem.IH by (auto simp add: clearOne_Elem simp del: clearOne.simps)
  have m2: "distinct (elems ?all) \<longrightarrow> distinct (elems (map (clearOne m) ?all))"
    using Elem.IH by (auto simp add: clearOne_Elem simp del: clearOne.simps)
  have m3: "distinct (elems ?all) \<longrightarrow> \<not> list_ex (isElem m) ?all \<longrightarrow>
      m \<notin> set (elems (map (clearOne m) ?all))"
    using Elem.IH by (auto simp add: clearOne_Elem simp del: clearOne.simps)
  show ?case
  proof (cases "list_ex (isElem m) ?all")
    case True
    then have c: "clearOneL m ?all = normalizeL (replaceChild m ?all)"
      by (simp add: clearOneL_def)
    show ?thesis
      using m1 m2 True elems_replaceChild_subset [of m ?all]
        distinct_elems_replaceChild [of ?all m] replaceChild_removes [of ?all m]
      unfolding c by simp
  next
    case False
    then have c: "clearOneL m ?all = map (clearOne m) ?all"
      by (simp add: clearOneL_def)
    show ?thesis
      using m1 m2 m3 False unfolding c by simp
  qed
qed

lemma mergeText_tail_cong:
  "mergeText R = mergeText R' \<Longrightarrow> mergeText (k # R) = mergeText (k # R')"
  by (cases k) simp_all

lemma mergeText_tx: "mergeText (tx b @ R) = mergeText (Text b # R)"
  by (simp add: tx_def)

lemma canon_Cons: "canon n (k # ks) = mergeText (normalize (unmark n k) # map (\<lambda>k. normalize (unmark n k)) ks)"
  by (simp add: canon_def)

lemma split_canon: "split n t0 t \<Longrightarrow> canon n t = canon n t0"
proof (induction rule: split.induct)
  case split_Nil
  show ?case by simp
next
  case (split_Text ks ks' s)
  then show ?case
    unfolding canon_Cons by (intro mergeText_tail_cong) (simp add: canon_def)
next
  case (split_Mark ks ks' mid m b a)
  let ?g = "\<lambda>k. normalize (unmark n k)"
  have tl: "mergeText (map ?g ks') = mergeText (map ?g ks)"
    using split_Mark.IH by (simp add: canon_def)
  have "canon n (tx b @ Elem m [Text mid] # tx a @ ks')
      = mergeText (tx b @ Text mid # tx a @ map ?g ks')"
    using split_Mark.hyps(3) by (simp add: canon_def tx_def)
  also have "\<dots> = mergeText (Text b # Text mid # tx a @ map ?g ks')"
    by (simp only: mergeText_tx)
  also have "\<dots> = mergeText (Text (b @ mid) # tx a @ map ?g ks')"
    by (simp only: mergeText_Text_Text)
  also have "\<dots> = mergeText (Text (b @ mid) # Text a # map ?g ks')"
    by (intro mergeText_tail_cong) (simp only: mergeText_tx)
  also have "\<dots> = mergeText (Text ((b @ mid) @ a) # map ?g ks')"
    by (simp only: mergeText_Text_Text)
  also have "\<dots> = mergeText (Text (b @ mid @ a) # map ?g ks)"
    using mergeText_tail_cong [OF tl, of "Text (b @ mid @ a)"] by simp
  finally show ?case by (simp add: canon_def)
next
  case (split_Elem cs cs' ks ks' i)
  then show ?case
    by (simp add: canon_def comp_def)
qed

lemma unmark_base: "\<forall>i \<in> set (elems ks). i < n \<Longrightarrow> map (unmark n) ks = ks"
  by (induction ks rule: forest_induct) auto

lemma canon_base:
  "\<forall>i \<in> set (elems ks). i < n \<Longrightarrow> normalized ks \<Longrightarrow> canon n ks = ks"
  by (simp add: canon_unmark unmark_base normalized_fix)

lemma split_startsText: "split n ks ks' \<Longrightarrow> \<not> startsText ks \<Longrightarrow> \<not> startsText ks'"
  by (induction rule: split.induct) simp_all

lemma normalized_tx: "\<not> startsText R \<Longrightarrow> normalized R \<Longrightarrow> normalized (tx a @ R)"
  by (simp add: tx_def normalized_Text del: normalized.simps(2))

lemma startsText_tx: "startsText (tx a @ Elem m cs # R) = (a \<noteq> [])"
  by (simp add: tx_def)

lemma split_normalized: "split n t0 t \<Longrightarrow> normalized t0 \<Longrightarrow> normalized t"
proof (induction rule: split.induct)
  case split_Nil
  show ?case by simp
next
  case (split_Text ks ks' s)
  then show ?case
    using split_startsText [OF split_Text.hyps]
    by (simp add: normalized_Text del: normalized.simps(2))
next
  case (split_Mark ks ks' mid m b a)
  then have nk: "normalized ks'" "\<not> startsText ks'"
    using split_startsText [OF split_Mark.hyps(1)]
    by (simp_all add: normalized_Text del: normalized.simps(2))
  have "normalized (Elem m [Text mid] # tx a @ ks')"
    using nk split_Mark.hyps(2) by (simp add: normalized_tx)
  then show ?case
    by (simp add: tx_def)
next
  case (split_Elem cs cs' ks ks' i)
  then show ?case by simp
qed

lemma clear_fold_invariant:
  assumes "normalized cur" and "distinct (elems cur)" and "\<forall>m \<in> set M. n \<le> m"
      and "\<forall>x \<in> set (elems cur). n \<le> x \<longrightarrow> x \<in> set M"
  shows "canon n (foldl (\<lambda>d m. clearOneL m d) cur M) = canon n cur
       \<and> normalized (foldl (\<lambda>d m. clearOneL m d) cur M)
       \<and> (\<forall>x \<in> set (elems (foldl (\<lambda>d m. clearOneL m d) cur M)). x < n)"
  using assms
proof (induction M arbitrary: cur)
  case Nil
  then show ?case by (auto simp add: not_le [symmetric])
next
  case (Cons m M)
  let ?c = "clearOneL m cur"
  note e = elems_clearOne [of m cur]
  have n1: "normalized ?c" using normalized_clearOne [OF Cons.prems(1)] by simp
  have d1: "distinct (elems ?c)" using e Cons.prems(2) by simp
  have m1: "\<forall>m \<in> set M. n \<le> m" using Cons.prems(3) by simp
  have r1: "\<forall>x \<in> set (elems ?c). n \<le> x \<longrightarrow> x \<in> set M"
  proof (intro ballI impI)
    fix x assume x: "x \<in> set (elems ?c)" "n \<le> x"
    then have "x \<in> set (elems cur)" using e by blast
    then have "x \<in> set (m # M)" using Cons.prems(4) x(2) by blast
    moreover have "x \<noteq> m" using e Cons.prems(2) x(1) by blast
    ultimately show "x \<in> set M" by simp
  qed
  have c1: "canon n ?c = canon n cur"
    using Cons.prems(3) by (intro canon_clearOneL) simp
  show ?case
    using Cons.IH [OF n1 d1 m1 r1] c1 by simp
qed

lemma clear_fold:
  assumes hl: "split n t0 t" and n0: "normalized t0" and b0: "\<forall>i \<in> set (elems t0). i < n"
      and d: "distinct (elems t)" and M1: "\<forall>m \<in> set M. n \<le> m"
      and M2: "\<forall>x \<in> set (elems t). n \<le> x \<longrightarrow> x \<in> set M"
  shows "foldl (\<lambda>d m. clearOneL m d) t M = t0"
proof -
  let ?f = "foldl (\<lambda>d m. clearOneL m d) t M"
  have nt: "normalized t" using hl n0 by (rule split_normalized)
  from clear_fold_invariant [OF nt d M1 M2]
  have f: "canon n ?f = canon n t" "normalized ?f" "\<forall>x \<in> set (elems ?f). x < n"
    by simp_all
  have "?f = canon n ?f" using f(2,3) by (simp add: canon_base)
  also have "\<dots> = canon n t0" using f(1) split_canon [OF hl] by simp
  also have "\<dots> = t0" using b0 n0 by (rule canon_base)
  finally show ?thesis .
qed

section \<open>Highlighting\<close>

lemma startsWith_iff: "startsWith s q \<longleftrightarrow> (\<exists>post. s = q @ post)"
  by (induction s q rule: startsWith.induct) auto

lemma indexOf_Some:
  "indexOf s q = Some k \<Longrightarrow>
     (\<exists>post. s = take k s @ q @ post) \<and> k \<le> length s
     \<and> (\<forall>pre post. s = pre @ q @ post \<longrightarrow> k \<le> length pre)"
proof (induction s arbitrary: k)
  case Nil
  then show ?case by (auto split: if_splits)
next
  case (Cons c cs)
  show ?case
  proof (cases "startsWith (c # cs) q")
    case True
    then have "k = 0" using Cons.prems by simp
    then show ?thesis using True by (simp add: startsWith_iff)
  next
    case False
    then obtain j where j: "indexOf cs q = Some j" "k = Suc j"
      using Cons.prems by auto
    from Cons.IH [OF j(1)] obtain post where
      p: "cs = take j cs @ q @ post" "j \<le> length cs"
         "\<forall>pre post. cs = pre @ q @ post \<longrightarrow> j \<le> length pre"
      by blast
    have a: "\<exists>post. c # cs = take k (c # cs) @ q @ post"
      using p(1) j(2) by (intro exI [of _ post]) simp
    have b: "\<forall>pre post. c # cs = pre @ q @ post \<longrightarrow> k \<le> length pre"
    proof (intro allI impI)
      fix pre post' assume e: "c # cs = pre @ q @ post'"
      show "k \<le> length pre"
      proof (cases pre)
        case Nil
        then have "startsWith (c # cs) q" using e by (simp add: startsWith_iff)
        then show ?thesis using False by simp
      next
        case (Cons c' pre')
        then have "cs = pre' @ q @ post'" using e by simp
        then have "j \<le> length pre'" using p(3) by blast
        then show ?thesis using j(2) Cons by simp
      qed
    qed
    show ?thesis using a b p(2) j(2) by simp
  qed
qed

lemma indexOf_None: "indexOf s q = None \<Longrightarrow> \<not> contains s q"
proof (induction s)
  case Nil
  then show ?case by (auto simp add: contains_def split: if_splits)
next
  case (Cons c cs)
  then have ns: "\<not> startsWith (c # cs) q" and n: "indexOf cs q = None"
    by (auto split: if_splits)
  show ?case
  proof
    assume "contains (c # cs) q"
    then obtain pre post where e: "c # cs = pre @ q @ post" by (auto simp add: contains_def)
    show False
    proof (cases pre)
      case Nil
      then show ?thesis using e ns by (simp add: startsWith_iff)
    next
      case (Cons c' pre')
      then have "contains cs q" using e by (auto simp add: contains_def)
      then show ?thesis using Cons.IH n by simp
    qed
  qed
qed

lemma str_includes_contains: "str_includes s q \<longleftrightarrow> contains s q"
proof
  assume "str_includes s q"
  then obtain k where "indexOf s q = Some k" by (auto simp add: str_includes_def)
  from indexOf_Some [OF this] show "contains s q" by (auto simp add: contains_def)
next
  assume "contains s q"
  then show "str_includes s q"
    using indexOf_None [of s q] by (auto simp add: str_includes_def)
qed

lemma toLowerCase_simps [simp]:
  "length (toLowerCase s) = length s"
  "toLowerCase (xs @ ys) = toLowerCase xs @ toLowerCase ys"
  "toLowerCase (take k s) = take k (toLowerCase s)"
  "toLowerCase (drop k s) = drop k (toLowerCase s)"
  "toLowerCase [] = []"
  by (simp_all add: toLowerCase_def take_map drop_map)

lemma tx_simps [simp]: "tx [] = []" "s \<noteq> [] \<Longrightarrow> tx s = [Text s]"
  by (simp_all add: tx_def)

lemma fragmentFor_split:
  assumes i: "indexOf (toLowerCase t) q = Some k" and q: "q \<noteq> []"
  shows "\<exists>b mid a. fragmentFor q n t k = tx b @ Elem n [Text mid] # tx a
           \<and> firstSplit q t b mid a \<and> mid \<noteq> []"
proof -
  let ?b = "take k t" and ?mid = "take (length q) (drop k t)" and ?a = "drop (k + length q) t"
  from indexOf_Some [OF i] obtain post where
    p: "toLowerCase t = take k (toLowerCase t) @ q @ post" "k \<le> length t"
       "\<forall>pre post. toLowerCase t = pre @ q @ post \<longrightarrow> k \<le> length pre"
    by auto
  have dq: "drop k (toLowerCase t) = q @ post"
    using p(1,2) by (metis append_eq_conv_conj length_take min.absorb2 toLowerCase_simps(1))
  then have lm: "toLowerCase ?mid = q" by simp
  then have ml: "length ?mid = length q"
    by (metis toLowerCase_simps(1))
  then have mne: "?mid \<noteq> []" using q by auto
  have t: "t = ?b @ ?mid @ ?a"
    by (metis append_take_drop_id drop_drop add.commute)
  have fs: "firstSplit q t ?b ?mid ?a"
    unfolding firstSplit_def using t lm p(2,3) by auto
  have "fragmentFor q n t k = tx ?b @ Elem n [Text ?mid] # tx ?a"
    using mne by (simp add: fragmentFor_def substring_def Let_def tx_def)
  then show ?thesis using fs mne by blast
qed

lemma highlightNodes_counter: "k \<le> snd (highlightNodes q k ks)"
proof (induction ks arbitrary: k rule: forest_induct)
  case Nil
  show ?case by simp
next
  case (Text s ks)
  show ?case
    using Text [of k] Text [of "Suc k"]
    by (auto split: prod.splits option.splits)
next
  case (Elem i cs ks)
  show ?case
    using Elem.IH(1) [of k] Elem.IH(2) [of "snd (highlightNodes q k cs)"]
    by (auto split: prod.splits)
qed

lemma highlighted_base: "highlighted D q n b ks0 ks \<Longrightarrow> \<forall>i \<in> set (elems ks0). i < n"
  by (induction rule: highlighted.induct) auto

lemma highlightNodes_highlighted:
  assumes "q \<noteq> []"
  shows "\<forall>i \<in> set (elems ks). i < n \<Longrightarrow> n \<le> k \<Longrightarrow>
           highlighted D q n True ks (fst (highlightNodes q k ks))"
proof (induction ks arbitrary: k rule: forest_induct)
  case Nil
  show ?case by (simp add: highlighted_Nil)
next
  case (Text s ks)
  have tl: "highlighted D q n True ks (fst (highlightNodes q k' ks))" if "n \<le> k'" for k'
    using Text.IH [of k'] Text.prems that by simp
  show ?case
  proof (cases "indexOf (toLowerCase s) q")
    case None
    then have nc: "\<not> contains (toLowerCase s) q" by (rule indexOf_None)
    have "fst (highlightNodes q k (Text s # ks)) = Text s # fst (highlightNodes q k ks)"
      using None by (simp add: str_includes_def split: prod.splits)
    then show ?thesis
      using nc tl [OF Text.prems(2)] by (simp add: highlighted_Text)
  next
    case (Some idx)
    then have c: "contains (toLowerCase s) q"
      using str_includes_contains [of "toLowerCase s" q] by (simp add: str_includes_def)
    from fragmentFor_split [OF Some assms, of k] obtain b mid a where
      f: "fragmentFor q k s idx = tx b @ Elem k [Text mid] # tx a" "firstSplit q s b mid a"
      by blast
    have "fst (highlightNodes q k (Text s # ks))
        = tx b @ Elem k [Text mid] # tx a @ fst (highlightNodes q (Suc k) ks)"
      using Some f(1) by (simp add: str_includes_def split: prod.splits)
    moreover have "highlighted D q n True (Text s # ks)
        (tx b @ Elem k [Text mid] # tx a @ fst (highlightNodes q (Suc k) ks))"
      using c f(2) Text.prems(2) tl [of "Suc k"]
      by (intro highlighted_Mark) simp_all
    ultimately show ?thesis by simp
  qed
next
  case (Elem i cs ks)
  let ?n1 = "snd (highlightNodes q k cs)"
  have k1: "n \<le> ?n1" using highlightNodes_counter [of k q cs] Elem.prems(2) by simp
  have "fst (highlightNodes q k (Elem i cs # ks))
      = Elem i (fst (highlightNodes q k cs)) # fst (highlightNodes q ?n1 ks)"
    by (simp split: prod.splits)
  moreover have "highlighted D q n True (Elem i cs # ks)
      (Elem i (fst (highlightNodes q k cs)) # fst (highlightNodes q ?n1 ks))"
    using Elem.IH(1) [of k] Elem.IH(2) [of ?n1] Elem.prems k1
    by (intro highlighted_Elem) simp_all
  ultimately show ?case by simp
qed

lemma elems_tx [simp]: "elems (tx s) = []"
  by (simp add: tx_def)

lemma elems_fragmentFor [simp]: "elems (fragmentFor q n t k) = [n]"
  by (simp add: fragmentFor_def Let_def)

lemma highlightNodes_Text:
  "highlightNodes q k (Text s # ks) =
     (case indexOf (toLowerCase s) q of
        None \<Rightarrow> (Text s # fst (highlightNodes q k ks), snd (highlightNodes q k ks))
      | Some idx \<Rightarrow> (fragmentFor q k s idx @ fst (highlightNodes q (Suc k) ks),
                     snd (highlightNodes q (Suc k) ks)))"
  by (simp add: str_includes_def split: prod.splits option.splits)

lemma highlightNodes_Elem:
  "highlightNodes q k (Elem i cs # ks) =
     (Elem i (fst (highlightNodes q k cs)) # fst (highlightNodes q (snd (highlightNodes q k cs)) ks),
      snd (highlightNodes q (snd (highlightNodes q k cs)) ks))"
  by (simp split: prod.splits)

lemma highlightAt_Text:
  "highlightAt el q k (Text s # ks) = (Text s # fst (highlightAt el q k ks), snd (highlightAt el q k ks))"
  by (simp split: prod.splits)

lemma highlightAt_Elem:
  "highlightAt el q k (Elem i cs # ks) =
     (let r = (if i = el then highlightNodes q k cs else highlightAt el q k cs)
      in (Elem i (fst r) # fst (highlightAt el q (snd r) ks), snd (highlightAt el q (snd r) ks)))"
  by (simp add: Let_def split: prod.splits)

lemma distinct_combine:
  fixes i k n1 n2 :: nat
  assumes "distinct A'" "distinct B'" "set A' = A \<union> {k..<n1}" "set B' = B \<union> {n1..<n2}"
      and lt: "\<And>x. x \<in> A \<union> B \<Longrightarrow> x < k" and "A \<inter> B = {}" "k \<le> n1" "n1 \<le> n2"
      and "i < k" "i \<notin> A" "i \<notin> B"
  shows "distinct (i # A' @ B') \<and> set (i # A' @ B') = insert i (A \<union> B) \<union> {k..<n2}"
proof -
  have "set A' \<inter> set B' = {}"
  proof (rule ccontr)
    assume "set A' \<inter> set B' \<noteq> {}"
    then obtain x where x: "x \<in> set A'" "x \<in> set B'" by auto
    then have "(x \<in> A \<or> (k \<le> x \<and> x < n1)) \<and> (x \<in> B \<or> (n1 \<le> x \<and> x < n2))"
      using assms(3,4) by auto
    then show False using lt [of x] assms(6,7) by auto
  qed
  moreover have "i \<notin> set A'" "i \<notin> set B'"
    using assms by auto
  moreover have "A \<union> {k..<n1} \<union> (B \<union> {n1..<n2}) = A \<union> B \<union> {k..<n2}"
    using assms(7,8) by auto
  ultimately show ?thesis using assms(1-4) by auto
qed

lemma highlightNodes_elems:
  "\<forall>i \<in> set (elems ks). i < k \<Longrightarrow> distinct (elems ks) \<Longrightarrow>
     distinct (elems (fst (highlightNodes q k ks)))
     \<and> set (elems (fst (highlightNodes q k ks)))
         = set (elems ks) \<union> {k ..< snd (highlightNodes q k ks)}"
proof (induction ks arbitrary: k rule: forest_induct)
  case Nil
  show ?case by simp
next
  case (Text s ks)
  have c: "k \<le> snd (highlightNodes q k ks)" "Suc k \<le> snd (highlightNodes q (Suc k) ks)"
    by (rule highlightNodes_counter)+
  have p: "\<forall>i \<in> set (elems ks). i < k" "\<forall>i \<in> set (elems ks). i < Suc k" "distinct (elems ks)"
    using Text.prems by auto
  note ih1 = Text.IH [OF p(1) p(3)] and ih2 = Text.IH [OF p(2) p(3)]
  show ?case
  proof (cases "indexOf (toLowerCase s) q")
    case None
    then show ?thesis using ih1 by (simp add: highlightNodes_Text del: highlightNodes.simps)
  next
    case (Some idx)
    then show ?thesis
      using ih2 c(2) p(1) by (auto simp add: highlightNodes_Text simp del: highlightNodes.simps)
  qed
next
  case (Elem i cs ks)
  let ?n1 = "snd (highlightNodes q k cs)"
  have c: "k \<le> ?n1" "?n1 \<le> snd (highlightNodes q ?n1 ks)"
    by (rule highlightNodes_counter)+
  have p: "\<forall>i \<in> set (elems cs). i < k" "distinct (elems cs)"
      "\<forall>i \<in> set (elems ks). i < ?n1" "distinct (elems ks)"
    using Elem.prems c(1) by (auto intro: less_le_trans)
  note ih1 = Elem.IH(1) [OF p(1) p(2)] and ih2 = Elem.IH(2) [OF p(3) p(4)]
  have "distinct (i # elems (fst (highlightNodes q k cs)) @ elems (fst (highlightNodes q ?n1 ks)))
      \<and> set (i # elems (fst (highlightNodes q k cs)) @ elems (fst (highlightNodes q ?n1 ks)))
          = insert i (set (elems cs) \<union> set (elems ks)) \<union> {k ..< snd (highlightNodes q ?n1 ks)}"
    using ih1 ih2 Elem.prems c
    by (intro distinct_combine [where ?n1.0 = ?n1]) auto
  then show ?case
    by (simp add: highlightNodes_Elem del: highlightNodes.simps)
qed

lemma highlightAt_counter: "k \<le> snd (highlightAt el q k ks)"
proof (induction ks arbitrary: k rule: forest_induct)
  case Nil
  show ?case by simp
next
  case (Text s ks)
  show ?case using Text [of k] by (simp add: highlightAt_Text del: highlightAt.simps)
next
  case (Elem i cs ks)
  show ?case
    using Elem.IH(1) [of k] highlightNodes_counter [of k q cs]
      Elem.IH(2) [of "snd (highlightAt el q k cs)"] Elem.IH(2) [of "snd (highlightNodes q k cs)"]
    by (auto simp add: highlightAt_Elem Let_def simp del: highlightAt.simps)
qed

lemma highlightAt_elems:
  "\<forall>i \<in> set (elems ks). i < k \<Longrightarrow> distinct (elems ks) \<Longrightarrow>
     distinct (elems (fst (highlightAt el q k ks)))
     \<and> set (elems (fst (highlightAt el q k ks)))
         = set (elems ks) \<union> {k ..< snd (highlightAt el q k ks)}"
proof (induction ks arbitrary: k rule: forest_induct)
  case Nil
  show ?case by simp
next
  case (Text s ks)
  show ?case
    using Text.IH [of k] Text.prems by (simp add: highlightAt_Text del: highlightAt.simps)
next
  case (Elem i cs ks)
  define r where "r = (if i = el then highlightNodes q k cs else highlightAt el q k cs)"
  have c: "k \<le> snd r" "snd r \<le> snd (highlightAt el q (snd r) ks)"
    unfolding r_def using highlightNodes_counter [of k q cs] highlightAt_counter by auto
  have p: "\<forall>i \<in> set (elems cs). i < k" "distinct (elems cs)"
      "\<forall>i \<in> set (elems ks). i < snd r" "distinct (elems ks)"
    using Elem.prems c(1) by (auto intro: less_le_trans)
  have ih1: "distinct (elems (fst r)) \<and> set (elems (fst r)) = set (elems cs) \<union> {k ..< snd r}"
    unfolding r_def using Elem.IH(1) [OF p(1) p(2)] highlightNodes_elems [OF p(1) p(2)] by simp
  note ih2 = Elem.IH(2) [OF p(3) p(4)]
  have e: "highlightAt el q k (Elem i cs # ks)
      = (Elem i (fst r) # fst (highlightAt el q (snd r) ks), snd (highlightAt el q (snd r) ks))"
    by (simp add: highlightAt_Elem Let_def r_def del: highlightAt.simps)
  have "distinct (i # elems (fst r) @ elems (fst (highlightAt el q (snd r) ks)))
      \<and> set (i # elems (fst r) @ elems (fst (highlightAt el q (snd r) ks)))
          = insert i (set (elems cs) \<union> set (elems ks)) \<union> {k ..< snd (highlightAt el q (snd r) ks)}"
    using ih1 ih2 Elem.prems c
    by (intro distinct_combine [where ?n1.0 = "snd r"]) auto
  then show ?case
    unfolding e by simp
qed

lemma highlighted_inactive:
  "highlighted D q n b cs cs' \<Longrightarrow> \<not> b \<Longrightarrow> \<forall>i \<in> set (elems cs). \<not> D i \<Longrightarrow> cs' = cs"
  by (induction rule: highlighted.induct) auto

lemma highlighted_split:
  "highlighted D q n b ks0 ks \<Longrightarrow> q \<noteq> [] \<Longrightarrow> split n ks0 ks"
proof (induction rule: highlighted.induct)
  case (highlighted_Nil inside)
  show ?case by (rule split_Nil)
next
  case (highlighted_Text inside s ks ks')
  then show ?case by (simp add: split_Text)
next
  case (highlighted_Mark inside s b mid a m ks ks')
  then have "s = b @ mid @ a" "mid \<noteq> []"
    by (auto simp add: firstSplit_def)
  then show ?case
    using highlighted_Mark by (simp add: split_Mark)
next
  case (highlighted_Elem i inside cs cs' ks ks')
  then show ?case by (simp add: split_Elem)
qed

lemma highlightAt_tx:
  "highlightAt el q k (tx s @ R) = (tx s @ fst (highlightAt el q k R), snd (highlightAt el q k R))"
  by (simp add: tx_def highlightAt_Text del: highlightAt.simps)

lemma highlightAt_mark:
  "m \<noteq> el \<Longrightarrow> highlightAt el q k (Elem m [Text mid] # R)
     = (Elem m [Text mid] # fst (highlightAt el q k R), snd (highlightAt el q k R))"
  by (simp add: highlightAt_Elem highlightAt_Text Let_def del: highlightAt.simps(2,3))

lemma noNesting_simps [simp]:
  "noNesting P []"
  "noNesting P (Text s # ks) = noNesting P ks"
  "noNesting P (Elem i cs # ks)
     = ((P i \<longrightarrow> (\<forall>j \<in> set (elems cs). \<not> P j)) \<and> noNesting P cs \<and> noNesting P ks)"
  by (auto simp add: noNesting_def)

lemma highlightAt_step:
  assumes q: "q \<noteq> []" and el: "el < n" "\<not> D el"
  shows "highlighted D q n b ks0 ks \<Longrightarrow> n \<le> k
     \<Longrightarrow> (b \<longrightarrow> el \<notin> set (elems ks0))
     \<Longrightarrow> noNesting (\<lambda>i. D i \<or> i = el) ks0
     \<Longrightarrow> highlighted (\<lambda>i. D i \<or> i = el) q n b ks0 (fst (highlightAt el q k ks))"
proof (induction arbitrary: k rule: highlighted.induct)
  case (highlighted_Nil inside)
  show ?case by (simp add: highlighted.highlighted_Nil)
next
  case (highlighted_Text inside s ks ks')
  have p: "inside \<longrightarrow> el \<notin> set (elems ks)" "noNesting (\<lambda>i. D i \<or> i = el) ks"
    using highlighted_Text.prems by simp_all
  have "highlighted (\<lambda>i. D i \<or> i = el) q n inside ks (fst (highlightAt el q k ks'))"
    using highlighted_Text.prems(1) p by (rule highlighted_Text.IH)
  then show ?case
    using highlighted_Text.hyps(1)
    by (simp add: highlightAt_Text highlighted.highlighted_Text del: highlightAt.simps)
next
  case (highlighted_Mark inside s b mid a m ks ks')
  have p: "inside \<longrightarrow> el \<notin> set (elems ks)" "noNesting (\<lambda>i. D i \<or> i = el) ks"
    using highlighted_Mark.prems by simp_all
  have ih: "highlighted (\<lambda>i. D i \<or> i = el) q n inside ks (fst (highlightAt el q k ks'))"
    using highlighted_Mark.prems(1) p by (rule highlighted_Mark.IH)
  have ne: "m \<noteq> el" using highlighted_Mark.hyps(4) el(1) by simp
  have "fst (highlightAt el q k (tx b @ Elem m [Text mid] # tx a @ ks'))
      = tx b @ Elem m [Text mid] # tx a @ fst (highlightAt el q k ks')"
    by (simp add: highlightAt_tx highlightAt_mark [OF ne] del: highlightAt.simps)
  moreover have "highlighted (\<lambda>i. D i \<or> i = el) q n inside (Text s # ks)
      (tx b @ Elem m [Text mid] # tx a @ fst (highlightAt el q k ks'))"
    using highlighted_Mark.hyps(1-4) ih by (rule highlighted.highlighted_Mark)
  ultimately show ?case by simp
next
  case (highlighted_Elem i inside cs cs' ks ks')
  define r where "r = (if i = el then highlightNodes q k cs' else highlightAt el q k cs')"
  have e: "fst (highlightAt el q k (Elem i cs' # ks'))
      = Elem i (fst r) # fst (highlightAt el q (snd r) ks')"
    by (simp add: highlightAt_Elem Let_def r_def del: highlightAt.simps)
  have kr: "n \<le> snd r"
    unfolding r_def
    using highlightNodes_counter [of k q cs'] highlightAt_counter [of k el q cs']
      highlighted_Elem.prems(1) by auto
  have nn0: "((D i \<or> i = el) \<longrightarrow> (\<forall>j \<in> set (elems cs). \<not> (D j \<or> j = el)))
       \<and> noNesting (\<lambda>i. D i \<or> i = el) cs \<and> noNesting (\<lambda>i. D i \<or> i = el) ks"
    using highlighted_Elem.prems(3) unfolding noNesting_simps(3) by blast
  have nn: "noNesting (\<lambda>i. D i \<or> i = el) cs" "noNesting (\<lambda>i. D i \<or> i = el) ks"
       "D i \<or> i = el \<longrightarrow> (\<forall>j \<in> set (elems cs). \<not> D j \<and> j \<noteq> el)"
    using nn0 by blast+
  have el_in: "set (elems (Elem i cs # ks)) = insert i (set (elems cs) \<union> set (elems ks))"
    by simp
  have p2: "inside \<longrightarrow> el \<notin> set (elems ks)" "inside \<longrightarrow> el \<notin> set (elems cs)" "inside \<longrightarrow> i \<noteq> el"
    using highlighted_Elem.prems(2) unfolding el_in by blast+
  have tl: "highlighted (\<lambda>i. D i \<or> i = el) q n inside ks (fst (highlightAt el q (snd r) ks'))"
    using kr p2(1) nn(2) by (rule highlighted_Elem.IH(2))
  have hd: "highlighted (\<lambda>i. D i \<or> i = el) q n (inside \<or> (D i \<or> i = el)) cs (fst r)"
  proof (cases "i = el")
    case True
    have ni: "\<not> inside" using p2(3) True by blast
    have nd: "\<not> D i" using el(2) True by blast
    have "\<forall>j \<in> set (elems cs). \<not> D j" using nn(3) True by blast
    then have same: "cs' = cs"
      using highlighted_inactive [OF highlighted_Elem.hyps(2)] ni nd by blast
    have "highlighted (\<lambda>i. D i \<or> i = el) q n True cs (fst (highlightNodes q k cs))"
      using highlighted_base [OF highlighted_Elem.hyps(2)] highlighted_Elem.prems(1)
      by (rule highlightNodes_highlighted [OF q])
    moreover have "fst r = fst (highlightNodes q k cs)"
      unfolding r_def same using True by (simp only: if_True refl)
    moreover have "(inside \<or> (D i \<or> i = el)) = True"
      using True by blast
    ultimately show ?thesis by (simp only:)
  next
    case False
    have a: "inside \<or> D i \<longrightarrow> el \<notin> set (elems cs)"
      using p2(2) nn(3) by blast
    have "highlighted (\<lambda>i. D i \<or> i = el) q n (inside \<or> D i) cs (fst (highlightAt el q k cs'))"
      using highlighted_Elem.prems(1) a nn(1) by (rule highlighted_Elem.IH(1))
    moreover have "fst r = fst (highlightAt el q k cs')"
      unfolding r_def using False by (simp only: if_False refl)
    moreover have "(inside \<or> (D i \<or> i = el)) = (inside \<or> D i)"
      using False by blast
    ultimately show ?thesis by (simp only:)
  qed
  show ?case
    unfolding e using highlighted_Elem.hyps(1) hd tl by (rule highlighted.highlighted_Elem)
qed

section \<open>The input listener of the search\<close>

lemma textContentL_tx [simp]: "textContentL (tx s) = s"
  by (simp add: tx_def)

lemma subtreesL_append [simp]: "subtreesL (xs @ ys) = subtreesL xs @ subtreesL ys"
  by (simp add: subtreesL_def)

lemma subtreesL_tx [simp]: "subtreesL (tx s) = []"
  by (simp add: tx_def)

lemma split_textContentL: "split n ks0 ks \<Longrightarrow> textContentL ks = textContentL ks0"
  by (induction rule: split.induct) simp_all

lemma split_elems:
  "split n ks0 ks \<Longrightarrow> \<forall>j \<in> set (elems ks0). j < n \<Longrightarrow> filter (\<lambda>j. j < n) (elems ks) = elems ks0"
  by (induction rule: split.induct) simp_all

lemma split_elems_set:
  "split n ks0 ks \<Longrightarrow> set (elems ks0) \<subseteq> set (elems ks)
     \<and> (\<forall>j \<in> set (elems ks). j \<in> set (elems ks0) \<or> n \<le> j)"
  by (induction rule: split.induct) auto

lemma split_lookup:
  "split n ks0 ks \<Longrightarrow> i < n \<Longrightarrow>
     (case map_of (subtreesL ks0) i of
        None \<Rightarrow> map_of (subtreesL ks) i = None
      | Some cs0 \<Rightarrow> (\<exists>cs. map_of (subtreesL ks) i = Some cs \<and> split n cs0 cs))"
proof (induction rule: split.induct)
  case split_Nil
  show ?case by simp
next
  case (split_Text ks ks' s)
  then show ?case by (simp split: option.splits)
next
  case (split_Mark ks ks' mid m b a)
  then show ?case by (auto simp add: map_add_def split: option.splits)
next
  case (split_Elem cs cs' ks ks' j)
  then show ?case by (auto simp add: map_add_def split: option.splits)
qed

lemma withHidden_simps [simp]:
  "tagName (withHidden h e) = tagName e"
  "attributes (withHidden h e) = attributes e"
  "style (withHidden h e) = style e"
  "classList (withHidden h e) = (if h then insert ''hidden'' (classList e) else classList e - {''hidden''})"
  by (simp_all add: withHidden_def)

lemma withHidden_idem [simp]: "withHidden h (withHidden h' e) = withHidden h e"
  by (auto simp add: withHidden_def)

lemma sameButHidden_withHidden: "sameButHidden a b \<Longrightarrow> withHidden h a = withHidden h b"
proof -
  assume "sameButHidden a b"
  then have "withHidden h (withHidden False a) = withHidden h (withHidden False b)"
    by (simp only: sameButHidden_def)
  then show ?thesis by simp
qed

lemma sameButHidden_attr: "sameButHidden a b \<Longrightarrow> attributes a = attributes b"
proof -
  assume "sameButHidden a b"
  then have "attributes (withHidden False a) = attributes (withHidden False b)"
    by (simp only: sameButHidden_def)
  then show ?thesis by simp
qed

lemma sameButHidden_class:
  "sameButHidden a b \<Longrightarrow> c \<noteq> ''hidden'' \<Longrightarrow> (c \<in> classList a) = (c \<in> classList b)"
proof -
  assume "sameButHidden a b" and c: "c \<noteq> ''hidden''"
  then have "classList (withHidden False a) = classList (withHidden False b)"
    by (simp only: sameButHidden_def)
  then have "classList a - {''hidden''} = classList b - {''hidden''}" by simp
  with c show ?thesis by blast
qed

lemma sameButHidden_refl [simp]: "sameButHidden a a"
  by (simp add: sameButHidden_def)

lemma sameButHidden_left [simp]: "sameButHidden (withHidden h a) b = sameButHidden a b"
  by (simp add: sameButHidden_def)

lemma classList_add_hidden:
  "classList_add i ''hidden'' st = st\<lparr>objs := (objs st)(i := withHidden True (objs st i))\<rparr>"
  by (simp add: classList_add_def withHidden_def)

lemma classList_remove_hidden:
  "classList_remove i ''hidden'' st = st\<lparr>objs := (objs st)(i := withHidden False (objs st i))\<rparr>"
  by (simp add: classList_remove_def withHidden_def)

lemma split_refl: "\<forall>i \<in> set (elems ks). i < n \<Longrightarrow> split n ks ks"
  by (induction ks rule: forest_induct) (auto intro: split.intros)

lemma tracked_base:
  assumes "tracked env st0 st" "i < nextId st0"
  shows "sameButHidden (objs st i) (objs st0 i)"
proof -
  from assms have "if i \<in> set (navItems env) \<or> i \<in> set (sections env) \<or> i = emptyState env
             then sameButHidden (objs st i) (objs st0 i)
             else objs st i = objs st0 i"
    unfolding tracked_def by blast
  then show ?thesis by (simp split: if_splits)
qed

lemma tracked_other:
  assumes "tracked env st0 st" "i < nextId st0"
     "i \<notin> set (navItems env)" "i \<notin> set (sections env)" "i \<noteq> emptyState env"
  shows "objs st i = objs st0 i"
proof -
  from assms(1,2) have "if i \<in> set (navItems env) \<or> i \<in> set (sections env) \<or> i = emptyState env
             then sameButHidden (objs st i) (objs st0 i)
             else objs st i = objs st0 i"
    unfolding tracked_def by blast
  with assms(3-) show ?thesis by simp
qed

lemma tracked_facts:
  assumes "tracked env st0 st"
  shows "split (nextId st0) (doc st0) (doc st)" "distinct (elems (doc st))"
    "\<And>i. i \<in> set (elems (doc st)) \<Longrightarrow> i < nextId st" "nextId st0 \<le> nextId st"
    "\<And>i. nextId st0 \<le> i \<Longrightarrow> i < nextId st \<Longrightarrow> objs st i = markElement"
  using assms unfolding tracked_def by blast+

lemma pristine_facts:
  assumes "pristine env st0"
  shows "normalized (doc st0)" "distinct (elems (doc st0))"
    "\<And>i. i \<in> set (elems (doc st0)) \<Longrightarrow> i < nextId st0"
    "\<And>i. i \<in> set (elems (doc st0)) \<Longrightarrow> \<not> hasClass st0 ''search-highlight'' i"
    "distinct (navItems env)"
    "set (navItems env) \<subseteq> set (elems (doc st0))"
    "set (sections env) \<subseteq> set (elems (doc st0))"
    "\<And>i. i \<in> set (navItems env) \<Longrightarrow> set (descendants st0 i) \<inter> set (navItems env) = {}"
    "\<And>s. s \<in> set (sections env) \<Longrightarrow> s \<notin> set (navItems env)"
    "\<And>s. s \<in> set (sections env) \<Longrightarrow> \<not> hasAttribute st0 ''data-nav-item'' s"
    "emptyState env < nextId st0" "emptyState env \<notin> set (navItems env)"
    "emptyState env \<notin> set (sections env)"
    "\<not> hasAttribute st0 ''data-nav-item'' (emptyState env)"
  using assms unfolding pristine_def by blast+

lemma tracked_marks:
  assumes p: "pristine env st0" and t: "tracked env st0 st"
  defines "M \<equiv> document_querySelectorAll st (hasClass st ''search-highlight'')"
  shows "\<forall>m \<in> set M. nextId st0 \<le> m"
    and "\<forall>x \<in> set (elems (doc st)). nextId st0 \<le> x \<longrightarrow> x \<in> set M"
proof -
  note sp = split_elems_set [OF tracked_facts(1) [OF t]]
  show "\<forall>m \<in> set M. nextId st0 \<le> m"
  proof
    fix m assume "m \<in> set M"
    then have m: "m \<in> set (elems (doc st))" "hasClass st ''search-highlight'' m"
      by (simp_all add: M_def document_querySelectorAll_def)
    show "nextId st0 \<le> m"
    proof (rule ccontr)
      assume "\<not> nextId st0 \<le> m"
      then have lt: "m < nextId st0" by simp
      with sp m(1) have "m \<in> set (elems (doc st0))" by auto
      then have "\<not> hasClass st0 ''search-highlight'' m" by (rule pristine_facts(4) [OF p])
      moreover have "hasClass st ''search-highlight'' m = hasClass st0 ''search-highlight'' m"
        unfolding hasClass_def
        by (rule sameButHidden_class [OF tracked_base [OF t lt]]) simp
      ultimately show False using m(2) by simp
    qed
  qed
  show "\<forall>x \<in> set (elems (doc st)). nextId st0 \<le> x \<longrightarrow> x \<in> set M"
  proof (intro ballI impI)
    fix x assume x: "x \<in> set (elems (doc st))" "nextId st0 \<le> x"
    from tracked_facts(3) [OF t x(1)] have "x < nextId st" .
    from tracked_facts(5) [OF t x(2) this] have "objs st x = markElement" .
    then have "hasClass st ''search-highlight'' x" by (simp add: hasClass_def markElement_def)
    with x(1) show "x \<in> set M" by (simp add: M_def document_querySelectorAll_def)
  qed
qed

lemma clearHighlights_fields [simp]:
  "objs (clearHighlights st) = objs st" "nextId (clearHighlights st) = nextId st"
  by (simp_all add: clearHighlights_def)

lemma clearHighlights_doc:
  assumes p: "pristine env st0" and t: "tracked env st0 st"
  shows "doc (clearHighlights st) = doc st0"
proof -
  have "foldl (\<lambda>d m. clearOneL m d) (doc st)
          (document_querySelectorAll st (hasClass st ''search-highlight'')) = doc st0"
    using tracked_facts(1) [OF t] pristine_facts(1) [OF p] _ tracked_facts(2) [OF t]
      tracked_marks [OF p t]
  proof (rule clear_fold)
    show "\<forall>i \<in> set (elems (doc st0)). i < nextId st0" using pristine_facts(3) [OF p] by blast
  qed
  then show ?thesis by (simp add: clearHighlights_def)
qed

lemma highlightText_fields:
  "doc (highlightText x q s) = fst (highlightAt x q (nextId s) (doc s))"
  "nextId (highlightText x q s) = snd (highlightAt x q (nextId s) (doc s))"
  "objs (highlightText x q s)
     = (\<lambda>i. if nextId s \<le> i \<and> i < snd (highlightAt x q (nextId s) (doc s))
             then markElement else objs s i)"
  by (simp_all add: highlightText_def split: prod.splits)

lemma textContentOf_split:
  assumes "split n (doc st0) (doc s)" "i < n"
  shows "textContentOf s i = textContentOf st0 i"
  using split_lookup [OF assms]
  by (auto simp add: textContentOf_def childNodes_def split_textContentL split: option.splits)

lemma highlighted_refl:
  "\<forall>i \<in> set (elems ks). i < n \<and> \<not> D i \<Longrightarrow> highlighted D q n False ks ks"
  by (induction ks rule: forest_induct) (auto intro: highlighted.intros)

lemma childNodes_member:
  "distinct (elems ks) \<Longrightarrow> (i, cs) \<in> set (subtreesL ks) \<Longrightarrow> childNodes ks i = Some cs"
  unfolding childNodes_def by (rule map_of_is_SomeI) (simp_all add: fst_subtreesL)

lemma noNesting_items:
  assumes p: "pristine env st0" and P: "\<And>i. P i \<Longrightarrow> i \<in> set (navItems env)"
  shows "noNesting P (doc st0)"
  unfolding noNesting_def
proof (intro ballI, clarify)
  fix i cs j
  assume m: "(i, cs) \<in> set (subtreesL (doc st0))" and "P i" "j \<in> set (elems cs)" "P j"
  from childNodes_member [OF pristine_facts(2) [OF p] m]
  have "descendants st0 i = elems cs" by (simp add: descendants_def)
  with pristine_facts(8) [OF p P [OF \<open>P i\<close>]] \<open>j \<in> set (elems cs)\<close> P [OF \<open>P j\<close>]
  show False by auto
qed

lemma processItem_match:
  "str_includes (toLowerCase (textContentOf (snd r) x)) q \<Longrightarrow>
     processItem q r x = (True, highlightText x q (classList_remove x ''hidden'' (snd r)))"
  by (simp add: processItem_def Let_def)

lemma processItem_nomatch:
  "\<not> str_includes (toLowerCase (textContentOf (snd r) x)) q \<Longrightarrow>
     processItem q r x = (fst r, classList_add x ''hidden'' (snd r))"
  by (simp add: processItem_def Let_def)

lemma processItem_step:
  assumes p: "pristine env st0" and q: "q \<noteq> []" and n1: "nextId st0 \<le> nextId st1"
      and x: "x \<in> set (navItems env)" "x \<notin> set xs" and xs: "set xs \<subseteq> set (navItems env)"
      and I: "itemsDone st0 st1 q xs r"
  shows "itemsDone st0 st1 q (xs @ [x]) (processItem q r x)"
proof -
  define s where "s = snd r"
  define D where "D = (\<lambda>i. i \<in> set xs \<and> matches st0 q i)"
  define n0 where "n0 = nextId st0"
  from I have H: "highlighted D q n0 False (doc st0) (doc s)"
    and F: "fst r = (\<exists>i \<in> set xs. matches st0 q i)"
    and dist: "distinct (elems (doc s))"
    and els: "set (elems (doc s)) = set (elems (doc st0)) \<union> {nextId st1 ..< nextId s}"
    and ns: "nextId st1 \<le> nextId s"
    and ob: "objs s = (\<lambda>i. if nextId st1 \<le> i \<and> i < nextId s then markElement
               else if i \<in> set xs then withHidden (\<not> matches st0 q i) (objs st1 i)
               else objs st1 i)"
    unfolding itemsDone_def s_def D_def n0_def by blast+
  have sp: "split n0 (doc st0) (doc s)" using H q by (rule highlighted_split)
  have xlt: "x < n0"
    using pristine_facts(6) [OF p] x(1) pristine_facts(3) [OF p] unfolding n0_def by blast
  have tc: "textContentOf s x = textContentOf st0 x"
    using sp xlt unfolding n0_def by (rule textContentOf_split)
  have dec: "str_includes (toLowerCase (textContentOf (snd r) x)) q = matches st0 q x"
    using tc by (simp add: matches_def str_includes_contains s_def)
  have bound: "\<forall>i \<in> set (elems (doc s)). i < nextId s"
  proof
    fix i assume "i \<in> set (elems (doc s))"
    then have "i \<in> set (elems (doc st0)) \<or> i < nextId s" using els by auto
    then show "i < nextId s"
    proof
      assume "i \<in> set (elems (doc st0))"
      from pristine_facts(3) [OF p this] n1 ns show ?thesis by simp
    qed
  qed
  show ?thesis
  proof (cases "matches st0 q x")
    case True
    define c where "c = classList_remove x ''hidden'' s"
    define s' where "s' = highlightText x q c"
    have pr: "processItem q r x = (True, s')"
      using True dec by (simp add: processItem_match s'_def c_def s_def)
    have c: "doc c = doc s" "nextId c = nextId s"
      "objs c = (objs s)(x := withHidden False (objs s x))"
      by (simp_all add: c_def classList_remove_hidden)
    define n' where "n' = snd (highlightAt x q (nextId s) (doc s))"
    have s': "doc s' = fst (highlightAt x q (nextId s) (doc s))" "nextId s' = n'"
      "objs s' = (\<lambda>i. if nextId s \<le> i \<and> i < n' then markElement else objs c i)"
      by (simp_all add: s'_def highlightText_fields c n'_def)
    have nn: "nextId s \<le> n'" unfolding n'_def by (rule highlightAt_counter)
    have nD: "\<not> D x" using x(2) by (simp add: D_def)
    have nest: "noNesting (\<lambda>i. D i \<or> i = x) (doc st0)"
      using p
    proof (rule noNesting_items)
      fix i assume "D i \<or> i = x"
      then show "i \<in> set (navItems env)" using xs x(1) by (auto simp add: D_def)
    qed
    have k: "n0 \<le> nextId s" using n1 ns by (simp add: n0_def)
    have "highlighted (\<lambda>i. D i \<or> i = x) q n0 False (doc st0) (fst (highlightAt x q (nextId s) (doc s)))"
      using q xlt nD H k _ nest by (rule highlightAt_step) simp
    moreover have "(\<lambda>i. D i \<or> i = x) = (\<lambda>i. i \<in> set (xs @ [x]) \<and> matches st0 q i)"
      using True by (auto simp add: D_def)
    ultimately have 1: "highlighted (\<lambda>i. i \<in> set (xs @ [x]) \<and> matches st0 q i) q n0 False
        (doc st0) (doc s')"
      by (simp only: s')
    have 2: "True = (\<exists>i \<in> set (xs @ [x]). matches st0 q i)" using True by auto
    from highlightAt_elems [OF bound dist, of x q]
    have 3: "distinct (elems (doc s'))"
      and e: "set (elems (doc s')) = set (elems (doc s)) \<union> {nextId s ..< n'}"
      by (simp_all only: s' n'_def)
    have 4: "set (elems (doc s')) = set (elems (doc st0)) \<union> {nextId st1 ..< nextId s'}"
      using e els ns nn by (auto simp add: s')
    have 5: "nextId st1 \<le> nextId s'" using ns nn by (simp add: s')
    have 6: "objs s' = (\<lambda>i. if nextId st1 \<le> i \<and> i < nextId s' then markElement
               else if i \<in> set (xs @ [x]) then withHidden (\<not> matches st0 q i) (objs st1 i)
               else objs st1 i)"
    proof (rule ext)
      fix i
      show "objs s' i = (if nextId st1 \<le> i \<and> i < nextId s' then markElement
               else if i \<in> set (xs @ [x]) then withHidden (\<not> matches st0 q i) (objs st1 i)
               else objs st1 i)"
        using xlt n1 ns nn x(2) True
        by (auto simp add: s' c ob n0_def)
    qed
    show ?thesis
      unfolding itemsDone_def pr snd_conv fst_conv n0_def [symmetric]
      using 1 2 3 4 5 6 by blast
  next
    case False
    define s' where "s' = classList_add x ''hidden'' s"
    have pr: "processItem q r x = (fst r, s')"
      using False dec by (simp add: processItem_nomatch s'_def s_def)
    have s': "doc s' = doc s" "nextId s' = nextId s"
      "objs s' = (objs s)(x := withHidden True (objs s x))"
      by (simp_all add: s'_def classList_add_hidden)
    have "D = (\<lambda>i. i \<in> set (xs @ [x]) \<and> matches st0 q i)"
      using False by (auto simp add: D_def)
    with H have 1: "highlighted (\<lambda>i. i \<in> set (xs @ [x]) \<and> matches st0 q i) q n0 False
        (doc st0) (doc s')"
      by (simp only: s')
    have 2: "fst r = (\<exists>i \<in> set (xs @ [x]). matches st0 q i)" using False F by auto
    have 3: "distinct (elems (doc s'))" using dist by (simp only: s')
    have 4: "set (elems (doc s')) = set (elems (doc st0)) \<union> {nextId st1 ..< nextId s'}"
      using els by (simp only: s')
    have 5: "nextId st1 \<le> nextId s'" using ns by (simp only: s')
    have 6: "objs s' = (\<lambda>i. if nextId st1 \<le> i \<and> i < nextId s' then markElement
               else if i \<in> set (xs @ [x]) then withHidden (\<not> matches st0 q i) (objs st1 i)
               else objs st1 i)"
    proof (rule ext)
      fix i
      show "objs s' i = (if nextId st1 \<le> i \<and> i < nextId s' then markElement
               else if i \<in> set (xs @ [x]) then withHidden (\<not> matches st0 q i) (objs st1 i)
               else objs st1 i)"
        using xlt n1 ns x(2) False
        by (auto simp add: s' ob n0_def)
    qed
    show ?thesis
      unfolding itemsDone_def pr snd_conv fst_conv n0_def [symmetric]
      using 1 2 3 4 5 6 by blast
  qed
qed

lemma items_fold:
  assumes p: "pristine env st0" and q: "q \<noteq> []" and n1: "nextId st0 \<le> nextId st1"
      and d1: "doc st1 = doc st0"
  shows "set xs \<subseteq> set (navItems env) \<Longrightarrow> distinct xs \<Longrightarrow>
           itemsDone st0 st1 q xs (foldl (processItem q) (False, st1) xs)"
proof (induction xs rule: rev_induct)
  case Nil
  have "highlighted (\<lambda>i. i \<in> set [] \<and> matches st0 q i) q (nextId st0) False (doc st0) (doc st0)"
    by (rule highlighted_refl) (use pristine_facts(3) [OF p] in simp)
  moreover have "objs st1 = (\<lambda>i. if nextId st1 \<le> i \<and> i < nextId st1 then markElement
             else if i \<in> set [] then withHidden (\<not> matches st0 q i) (objs st1 i)
             else objs st1 i)"
    by (rule ext) auto
  ultimately show ?case
    using pristine_facts(2) [OF p] by (simp add: itemsDone_def d1)
next
  case (snoc x xs)
  then have I: "itemsDone st0 st1 q xs (foldl (processItem q) (False, st1) xs)" by simp
  have "itemsDone st0 st1 q (xs @ [x]) (processItem q (foldl (processItem q) (False, st1) xs) x)"
    using p q n1 _ _ _ I by (rule processItem_step) (use snoc.prems in auto)
  then show ?case by simp
qed

lemma processSection_eq:
  "processSection s y =
     s\<lparr>objs := (objs s)(y := withHidden (querySelectorAll s y (shownItem s) = []) (objs s y))\<rparr>"
  by (simp add: processSection_def Let_def classList_add_hidden classList_remove_hidden)

lemma shown_frame:
  assumes a: "\<And>i. attributes (O' i) = attributes (objs s i)"
      and b: "\<And>i. hasAttribute s ''data-nav-item'' i \<Longrightarrow> O' i = objs s i"
  shows "querySelectorAll (s\<lparr>objs := O'\<rparr>) y (shownItem (s\<lparr>objs := O'\<rparr>))
           = querySelectorAll s y (shownItem s)"
proof -
  have "shownItem (s\<lparr>objs := O'\<rparr>) = shownItem s"
  proof (rule ext)
    fix i
    show "shownItem (s\<lparr>objs := O'\<rparr>) i = shownItem s i"
      using a [of i] b [of i] by (auto simp add: hasAttribute_def hasClass_def)
  qed
  then show ?thesis by (simp add: querySelectorAll_def)
qed

lemma sections_fold:
  assumes na: "\<forall>y \<in> set ys. \<not> hasAttribute s ''data-nav-item'' y"
  shows "foldl processSection s ys =
     s\<lparr>objs := (\<lambda>i. if i \<in> set ys
                     then withHidden (querySelectorAll s i (shownItem s) = []) (objs s i)
                     else objs s i)\<rparr>"
  using na
proof (induction ys rule: rev_induct)
  case Nil
  show ?case by simp
next
  case (snoc y ys)
  define O' where "O' = (\<lambda>i. if i \<in> set ys
                     then withHidden (querySelectorAll s i (shownItem s) = []) (objs s i)
                     else objs s i)"
  from snoc have IH: "foldl processSection s ys = s\<lparr>objs := O'\<rparr>" by (simp add: O'_def)
  have fr: "querySelectorAll (s\<lparr>objs := O'\<rparr>) y (shownItem (s\<lparr>objs := O'\<rparr>))
           = querySelectorAll s y (shownItem s)"
  proof (rule shown_frame)
    fix i show "attributes (O' i) = attributes (objs s i)" by (simp add: O'_def)
  next
    fix i assume "hasAttribute s ''data-nav-item'' i"
    then have "i \<notin> set ys" using snoc.prems by auto
    then show "O' i = objs s i" by (simp add: O'_def)
  qed
  have "foldl processSection s (ys @ [y]) = processSection (s\<lparr>objs := O'\<rparr>) y"
    by (simp add: IH)
  also have "\<dots> = s\<lparr>objs := O'(y := withHidden (querySelectorAll s y (shownItem s) = []) (O' y))\<rparr>"
    by (simp only: processSection_eq fr) simp
  also have "O'(y := withHidden (querySelectorAll s y (shownItem s) = []) (O' y))
      = (\<lambda>i. if i \<in> set (ys @ [y])
                     then withHidden (querySelectorAll s i (shownItem s) = []) (objs s i)
                     else objs s i)"
    by (rule ext) (simp add: O'_def)
  finally show ?case .
qed

lemma unhide_fold:
  "foldl (\<lambda>s i. classList_remove i ''hidden'' s) st xs =
     st\<lparr>objs := (\<lambda>i. if i \<in> set xs then withHidden False (objs st i) else objs st i)\<rparr>"
proof (induction xs rule: rev_induct)
  case Nil
  show ?case by simp
next
  case (snoc x xs)
  define O' where "O' = (\<lambda>i. if i \<in> set xs then withHidden False (objs st i) else objs st i)"
  from snoc have IH: "foldl (\<lambda>s i. classList_remove i ''hidden'' s) st xs = st\<lparr>objs := O'\<rparr>"
    by (simp add: O'_def)
  have "foldl (\<lambda>s i. classList_remove i ''hidden'' s) st (xs @ [x])
      = classList_remove x ''hidden'' (st\<lparr>objs := O'\<rparr>)"
    by (simp add: IH)
  also have "\<dots> = st\<lparr>objs := O'(x := withHidden False (O' x))\<rparr>"
    by (simp add: classList_remove_hidden)
  also have "O'(x := withHidden False (O' x))
      = (\<lambda>i. if i \<in> set (xs @ [x]) then withHidden False (objs st i) else objs st i)"
    by (rule ext) (simp add: O'_def)
  finally show ?case .
qed

lemma childNodes_elems_subset:
  "map_of (subtreesL ks) i = Some cs \<Longrightarrow> set (elems cs) \<subseteq> set (elems ks)"
proof (induction ks rule: forest_induct)
  case Nil
  then show ?case by simp
next
  case (Text s ks)
  then show ?case by simp
next
  case (Elem j cs' ks)
  then show ?case by (auto simp add: map_add_def split: if_splits option.splits)
qed

lemma onInput_empty_eq:
  "trim (toLowerCase v) = [] \<Longrightarrow>
     onInput env v st =
       classList_add (emptyState env) ''hidden''
         (foldl (\<lambda>s i. classList_remove i ''hidden'' s)
            (foldl (\<lambda>s i. classList_remove i ''hidden'' s) (clearHighlights st) (navItems env))
            (sections env))"
  by (simp add: onInput_def Let_def)

lemma onInput_query_eq:
  "trim (toLowerCase v) = q \<Longrightarrow> q \<noteq> [] \<Longrightarrow>
     onInput env v st =
       (let r = foldl (processItem q) (False, clearHighlights st) (navItems env);
            st3 = foldl processSection (snd r) (sections env)
        in st3\<lparr>objs := (objs st3)(emptyState env := withHidden (fst r) (objs st3 (emptyState env)))\<rparr>)"
  by (simp add: onInput_def Let_def classList_add_hidden classList_remove_hidden)

lemma base_lt:
  assumes p: "pristine env st0"
  shows "\<And>i. i \<in> set (navItems env) \<Longrightarrow> i < nextId st0"
    "\<And>i. i \<in> set (sections env) \<Longrightarrow> i < nextId st0"
  using pristine_facts(3,6,7) [OF p] by blast+

lemma onInput_empty:
  assumes p: "pristine env st0" and t: "tracked env st0 st" and e: "trim (toLowerCase v) = []"
  shows "doc (onInput env v st) = doc st0"
    and "nextId (onInput env v st) = nextId st"
    and "\<And>i. i < nextId st0 \<Longrightarrow> objs (onInput env v st) i = objsCleared env st0 i"
    and "\<And>i. nextId st0 \<le> i \<Longrightarrow> objs (onInput env v st) i = objs st i"
proof -
  define c where "c = clearHighlights st"
  define O1 where "O1 = (\<lambda>i. if i \<in> set (navItems env) then withHidden False (objs c i) else objs c i)"
  define O2 where "O2 = (\<lambda>i. if i \<in> set (sections env) then withHidden False (O1 i) else O1 i)"
  have c: "doc c = doc st0" "nextId c = nextId st" "objs c = objs st"
    by (simp_all add: c_def clearHighlights_doc [OF p t])
  have 1: "foldl (\<lambda>s i. classList_remove i ''hidden'' s) c (navItems env) = c\<lparr>objs := O1\<rparr>"
    by (simp only: unhide_fold O1_def)
  have 2: "foldl (\<lambda>s i. classList_remove i ''hidden'' s) (c\<lparr>objs := O1\<rparr>) (sections env)
      = c\<lparr>objs := O2\<rparr>"
    by (simp only: unhide_fold O2_def) (simp cong: if_cong)
  have r: "onInput env v st
      = c\<lparr>objs := O2(emptyState env := withHidden True (O2 (emptyState env)))\<rparr>"
    by (simp only: onInput_empty_eq [OF e] c_def [symmetric] 1 2 classList_add_hidden) simp
  show "doc (onInput env v st) = doc st0" by (simp add: r c)
  show "nextId (onInput env v st) = nextId st" by (simp add: r c)
  show "objs (onInput env v st) i = objsCleared env st0 i" if i: "i < nextId st0" for i
  proof -
    note sb = sameButHidden_withHidden [OF tracked_base [OF t i]]
    show ?thesis
    proof (cases "i \<in> set (navItems env) \<or> i \<in> set (sections env) \<or> i = emptyState env")
      case True
      then show ?thesis
        using pristine_facts(12,13) [OF p] sb [of True] sb [of False]
        by (auto simp add: r O2_def O1_def c objsCleared_def)
    next
      case False
      then show ?thesis
        using tracked_other [OF t i]
        by (simp add: r O2_def O1_def c objsCleared_def)
    qed
  qed
  show "objs (onInput env v st) i = objs st i" if i: "nextId st0 \<le> i" for i
  proof -
    have "i \<notin> set (navItems env)" "i \<notin> set (sections env)" "i \<noteq> emptyState env"
      using base_lt [OF p, of i] pristine_facts(11) [OF p] i by auto
    then show ?thesis by (simp add: r O2_def O1_def c)
  qed
qed

lemma objsCleared_same:
  "if i \<in> set (navItems env) \<or> i \<in> set (sections env) \<or> i = emptyState env
   then sameButHidden (objsCleared env st0 i) (objs st0 i)
   else objsCleared env st0 i = objs st0 i"
  by (simp add: objsCleared_def)

lemma objsAfter_same:
  "if i \<in> set (navItems env) \<or> i \<in> set (sections env) \<or> i = emptyState env
   then sameButHidden (objsAfter env q st0 i) (objs st0 i)
   else objsAfter env q st0 i = objs st0 i"
  by (simp add: objsAfter_def)

lemma tracked_empty:
  assumes p: "pristine env st0" and t: "tracked env st0 st" and e: "trim (toLowerCase v) = []"
  shows "tracked env st0 (onInput env v st)"
proof -
  note o = onInput_empty [OF p t e]
  have b: "\<forall>i \<in> set (elems (doc st0)). i < nextId st0" using pristine_facts(3) [OF p] by blast
  have 1: "split (nextId st0) (doc st0) (doc (onInput env v st))"
    unfolding o(1) using b by (rule split_refl)
  have 2: "distinct (elems (doc (onInput env v st)))"
    unfolding o(1) by (rule pristine_facts(2) [OF p])
  have 3: "\<forall>i \<in> set (elems (doc (onInput env v st))). i < nextId (onInput env v st)"
    unfolding o(1,2) using b tracked_facts(4) [OF t] by auto
  have 4: "nextId st0 \<le> nextId (onInput env v st)"
    unfolding o(2) by (rule tracked_facts(4) [OF t])
  have 5: "\<forall>i. nextId st0 \<le> i \<and> i < nextId (onInput env v st)
             \<longrightarrow> objs (onInput env v st) i = markElement"
    unfolding o(2) using o(4) tracked_facts(5) [OF t] by simp
  have 6: "\<forall>i. i < nextId st0 \<longrightarrow>
            (if i \<in> set (navItems env) \<or> i \<in> set (sections env) \<or> i = emptyState env
             then sameButHidden (objs (onInput env v st) i) (objs st0 i)
             else objs (onInput env v st) i = objs st0 i)"
    using o(3) objsCleared_same [of _ env st0] by simp
  show ?thesis unfolding tracked_def using 1 2 3 4 5 6 by blast
qed

lemma mark_no_attr [simp]: "attributes markElement = Map.empty"
  by (simp add: markElement_def)

lemma itemsDone_facts:
  assumes "itemsDone st0 (clearHighlights st) q xs r"
  shows "highlighted (\<lambda>i. i \<in> set xs \<and> matches st0 q i) q (nextId st0) False (doc st0) (doc (snd r))"
    and "fst r = (\<exists>i \<in> set xs. matches st0 q i)"
    and "distinct (elems (doc (snd r)))"
    and "set (elems (doc (snd r))) = set (elems (doc st0)) \<union> {nextId st ..< nextId (snd r)}"
    and "nextId st \<le> nextId (snd r)"
    and "objs (snd r) =
          (\<lambda>i. if nextId st \<le> i \<and> i < nextId (snd r) then markElement
               else if i \<in> set xs then withHidden (\<not> matches st0 q i) (objs st i)
               else objs st i)"
  using assms unfolding itemsDone_def clearHighlights_fields by blast+

lemma after_items_base:
  assumes p: "pristine env st0" and t: "tracked env st0 st"
      and I: "itemsDone st0 (clearHighlights st) q (navItems env) r" and i: "i < nextId st0"
  shows "objs (snd r) i = (if i \<in> set (navItems env)
           then withHidden (\<not> matches st0 q i) (objs st0 i) else objs st i)"
proof -
  note ob = itemsDone_facts(6) [OF I]
  have "\<not> nextId st \<le> i" using i tracked_facts(4) [OF t] by simp
  then show ?thesis
    by (simp add: ob sameButHidden_withHidden [OF tracked_base [OF t i]])
qed

lemma after_items_shown:
  assumes p: "pristine env st0" and t: "tracked env st0 st"
      and I: "itemsDone st0 (clearHighlights st) q (navItems env) r" and j: "j < nextId st0"
  shows "shownItem (snd r) j = shownAfter env q st0 j"
proof -
  note b = after_items_base [OF p t I j]
  show ?thesis
  proof (cases "j \<in> set (navItems env)")
    case True
    then show ?thesis by (simp add: b shownAfter_def hasAttribute_def hasClass_def)
  next
    case nav: False
    show ?thesis
    proof (cases "j \<in> set (sections env) \<or> j = emptyState env")
      case True
      then have "\<not> hasAttribute st0 ''data-nav-item'' j"
        using pristine_facts(10,14) [OF p] by blast
      moreover have "attributes (objs st j) = attributes (objs st0 j)"
        by (rule sameButHidden_attr [OF tracked_base [OF t j]])
      ultimately show ?thesis using nav by (simp add: b shownAfter_def hasAttribute_def)
    next
      case False
      with nav have "objs st j = objs st0 j" using tracked_other [OF t j] by blast
      then show ?thesis using nav by (simp add: b shownAfter_def hasAttribute_def hasClass_def)
    qed
  qed
qed

lemma after_items_marks:
  assumes p: "pristine env st0" and t: "tracked env st0 st"
      and I: "itemsDone st0 (clearHighlights st) q (navItems env) r"
      and i: "nextId st0 \<le> i" "i < nextId (snd r)"
  shows "objs (snd r) i = markElement"
proof -
  note ob = itemsDone_facts(6) [OF I]
  have n: "i \<notin> set (navItems env)" using base_lt(1) [OF p, of i] i(1) by auto
  show ?thesis
  proof (cases "nextId st \<le> i")
    case True
    then show ?thesis using i(2) by (simp add: ob)
  next
    case False
    then have "objs st i = markElement" using tracked_facts(5) [OF t i(1)] by simp
    then show ?thesis using False n by (simp add: ob)
  qed
qed

lemma after_items_query:
  assumes p: "pristine env st0" and t: "tracked env st0 st" and q: "q \<noteq> []"
      and I: "itemsDone st0 (clearHighlights st) q (navItems env) r" and y: "y < nextId st0"
  shows "querySelectorAll (snd r) y (shownItem (snd r))
           = filter (shownAfter env q st0) (descendants st0 y)"
proof -
  define s where "s = snd r"
  define n0 where "n0 = nextId st0"
  have H: "highlighted (\<lambda>i. i \<in> set (navItems env) \<and> matches st0 q i) q n0 False
       (doc st0) (doc s)"
    and els: "set (elems (doc s)) = set (elems (doc st0)) \<union> {nextId st ..< nextId s}"
    using itemsDone_facts(1,4) [OF I] unfolding s_def n0_def by simp_all
  have sp: "split n0 (doc st0) (doc s)" using H q by (rule highlighted_split)
  note lk = split_lookup [OF sp y [folded n0_def]]
  show ?thesis
  proof (cases "map_of (subtreesL (doc st0)) y")
    case None
    with lk have "map_of (subtreesL (doc s)) y = None" by simp
    with None show ?thesis
      by (simp add: querySelectorAll_def descendants_def childNodes_def s_def [symmetric])
  next
    case (Some cs0)
    with lk obtain cs where cs: "map_of (subtreesL (doc s)) y = Some cs" "split n0 cs0 cs"
      by auto
    have b0: "\<forall>j \<in> set (elems cs0). j < n0"
      using childNodes_elems_subset [OF Some] pristine_facts(3) [OF p] unfolding n0_def by blast
    have f: "filter (\<lambda>j. j < n0) (elems cs) = elems cs0" using cs(2) b0 by (rule split_elems)
    have "filter (shownItem s) (elems cs) = filter (shownItem s) (filter (\<lambda>j. j < n0) (elems cs))"
      unfolding filter_filter
    proof (rule filter_cong [OF refl])
      fix j assume "j \<in> set (elems cs)"
      then have j: "j \<in> set (elems (doc s))" using childNodes_elems_subset [OF cs(1)] by blast
      show "shownItem s j = (j < n0 \<and> shownItem s j)"
      proof (cases "j < n0")
        case True
        then show ?thesis by simp
      next
        case False
        then have "nextId st0 \<le> j" by (simp add: n0_def)
        moreover have "j < nextId s"
          using j els pristine_facts(3) [OF p, of j] False by (auto simp add: n0_def)
        ultimately have "objs s j = markElement"
          unfolding s_def by (rule after_items_marks [OF p t I])
        then show ?thesis using False by (simp add: hasAttribute_def)
      qed
    qed
    also have "\<dots> = filter (shownItem s) (elems cs0)" by (simp only: f)
    also have "\<dots> = filter (shownAfter env q st0) (elems cs0)"
    proof (rule filter_cong [OF refl])
      fix j assume "j \<in> set (elems cs0)"
      with b0 have "j < nextId st0" by (simp add: n0_def)
      then show "shownItem s j = shownAfter env q st0 j"
        unfolding s_def by (rule after_items_shown [OF p t I])
    qed
    finally show ?thesis
      using Some cs(1)
      by (simp add: querySelectorAll_def descendants_def childNodes_def s_def [symmetric])
  qed
qed

lemma onInput_query:
  assumes p: "pristine env st0" and t: "tracked env st0 st"
      and v: "trim (toLowerCase v) = q" and q: "q \<noteq> []"
  shows "highlighted (\<lambda>i. i \<in> set (navItems env) \<and> matches st0 q i) q (nextId st0) False
           (doc st0) (doc (onInput env v st))"
    and "distinct (elems (doc (onInput env v st)))"
    and "set (elems (doc (onInput env v st)))
           = set (elems (doc st0)) \<union> {nextId st ..< nextId (onInput env v st)}"
    and "nextId st \<le> nextId (onInput env v st)"
    and "\<And>i. i < nextId st0 \<Longrightarrow> objs (onInput env v st) i = objsAfter env q st0 i"
    and "\<And>i. nextId st0 \<le> i \<Longrightarrow> i < nextId (onInput env v st)
           \<Longrightarrow> objs (onInput env v st) i = markElement"
proof -
  define c where "c = clearHighlights st"
  define r where "r = foldl (processItem q) (False, c) (navItems env)"
  define s where "s = snd r"
  define O3 where "O3 = (\<lambda>i. if i \<in> set (sections env)
                     then withHidden (querySelectorAll s i (shownItem s) = []) (objs s i)
                     else objs s i)"
  define e where "e = emptyState env"
  have c: "doc c = doc st0" "nextId c = nextId st"
    by (simp_all add: c_def clearHighlights_doc [OF p t])
  have I: "itemsDone st0 (clearHighlights st) q (navItems env) r"
    unfolding r_def c_def
    using p q _ _ subset_refl pristine_facts(5) [OF p]
  proof (rule items_fold)
    show "nextId st0 \<le> nextId (clearHighlights st)" using tracked_facts(4) [OF t] by simp
    show "doc (clearHighlights st) = doc st0" by (rule clearHighlights_doc [OF p t])
  qed
  note base = after_items_base [OF p t I, folded s_def]
  note marks = after_items_marks [OF p t I, folded s_def]
  note query = after_items_query [OF p t q I, folded s_def]
  note F = itemsDone_facts [OF I, folded s_def]
  have na: "\<forall>y \<in> set (sections env). \<not> hasAttribute s ''data-nav-item'' y"
  proof
    fix y assume y: "y \<in> set (sections env)"
    have ylt: "y < nextId st0" using y by (rule base_lt(2) [OF p])
    have "y \<notin> set (navItems env)" using y by (rule pristine_facts(9) [OF p])
    then have "objs s y = objs st y" using base [OF ylt] by simp
    moreover have "attributes (objs st y) = attributes (objs st0 y)"
      by (rule sameButHidden_attr [OF tracked_base [OF t ylt]])
    ultimately show "\<not> hasAttribute s ''data-nav-item'' y"
      using pristine_facts(10) [OF p y] by (simp add: hasAttribute_def)
  qed
  have 3: "foldl processSection s (sections env) = s\<lparr>objs := O3\<rparr>"
    unfolding O3_def using na by (rule sections_fold)
  have r: "onInput env v st = s\<lparr>objs := O3(e := withHidden (fst r) (O3 e))\<rparr>"
    unfolding onInput_query_eq [OF v q] c_def [symmetric] r_def [symmetric] Let_def
      s_def [symmetric] 3 e_def [symmetric]
    by simp
  show "highlighted (\<lambda>i. i \<in> set (navItems env) \<and> matches st0 q i) q (nextId st0) False
           (doc st0) (doc (onInput env v st))"
    using F(1) by (simp add: r)
  show "distinct (elems (doc (onInput env v st)))" using F(3) by (simp add: r)
  show "set (elems (doc (onInput env v st)))
           = set (elems (doc st0)) \<union> {nextId st ..< nextId (onInput env v st)}"
    using F(4) by (simp add: r)
  show "nextId st \<le> nextId (onInput env v st)" using F(5) by (simp add: r)
  have elt: "e < nextId st0" "e \<notin> set (navItems env)" "e \<notin> set (sections env)"
    using pristine_facts(11,12,13) [OF p] by (simp_all add: e_def)
  show "objs (onInput env v st) i = objsAfter env q st0 i" if i: "i < nextId st0" for i
  proof -
    note sb = sameButHidden_withHidden [OF tracked_base [OF t i]]
    consider (isItem) "i \<in> set (navItems env)"
      | (isSection) "i \<notin> set (navItems env)" "i \<in> set (sections env)"
      | (isEmpty) "i \<notin> set (navItems env)" "i \<notin> set (sections env)" "i = e"
      | (isOther) "i \<notin> set (navItems env)" "i \<notin> set (sections env)" "i \<noteq> e"
      by blast
    then show ?thesis
    proof cases
      case isItem
      then have "i \<noteq> e" "i \<notin> set (sections env)"
        using elt(2) pristine_facts(9) [OF p] by auto
      with isItem show ?thesis by (simp add: r O3_def base [OF i] objsAfter_def)
    next
      case isSection
      then have "i \<noteq> e" using elt(3) by auto
      with isSection show ?thesis
        by (simp add: r O3_def base [OF i] objsAfter_def query [OF i] sb)
    next
      case isEmpty
      have "objs s e = objs st e" using base [OF elt(1)] elt(2) by simp
      moreover have "withHidden (fst r) (objs st e) = withHidden (fst r) (objs st0 e)"
        using sb isEmpty(3) by simp
      ultimately show ?thesis
        using isEmpty elt F(2) by (simp add: r O3_def objsAfter_def e_def)
    next
      case isOther
      then show ?thesis
        using tracked_other [OF t i]
        by (simp add: r O3_def base [OF i] objsAfter_def e_def)
    qed
  qed
  show "objs (onInput env v st) i = markElement"
    if i: "nextId st0 \<le> i" "i < nextId (onInput env v st)" for i
  proof -
    have "i \<noteq> e" "i \<notin> set (sections env)"
      using elt(1) base_lt(2) [OF p, of i] i(1) by auto
    moreover have "i < nextId s" using i(2) by (simp add: r)
    ultimately show ?thesis using marks [OF i(1)] by (simp add: r O3_def)
  qed
qed

lemma tracked_query:
  assumes p: "pristine env st0" and t: "tracked env st0 st"
      and v: "trim (toLowerCase v) \<noteq> []"
  shows "tracked env st0 (onInput env v st)"
proof -
  note o = onInput_query [OF p t refl v]
  have 1: "split (nextId st0) (doc st0) (doc (onInput env v st))"
    using o(1) v by (rule highlighted_split)
  have 3: "\<forall>i \<in> set (elems (doc (onInput env v st))). i < nextId (onInput env v st)"
  proof
    fix i assume "i \<in> set (elems (doc (onInput env v st)))"
    then have "i \<in> set (elems (doc st0)) \<or> i < nextId (onInput env v st)"
      unfolding o(3) by auto
    then show "i < nextId (onInput env v st)"
    proof
      assume "i \<in> set (elems (doc st0))"
      from pristine_facts(3) [OF p this] tracked_facts(4) [OF t] o(4) show ?thesis by simp
    qed
  qed
  have 4: "nextId st0 \<le> nextId (onInput env v st)"
    using tracked_facts(4) [OF t] o(4) by simp
  have 5: "\<forall>i. nextId st0 \<le> i \<and> i < nextId (onInput env v st)
             \<longrightarrow> objs (onInput env v st) i = markElement"
    using o(6) by blast
  have 6: "\<forall>i. i < nextId st0 \<longrightarrow>
            (if i \<in> set (navItems env) \<or> i \<in> set (sections env) \<or> i = emptyState env
             then sameButHidden (objs (onInput env v st) i) (objs st0 i)
             else objs (onInput env v st) i = objs st0 i)"
    using o(5) objsAfter_same [of _ env _ st0] by simp
  show ?thesis unfolding tracked_def using 1 o(2) 3 4 5 6 by blast
qed

lemma tracked_initial:
  assumes p: "pristine env st0"
  shows "tracked env st0 st0"
  unfolding tracked_def
  using pristine_facts(2,3) [OF p] split_refl [of "doc st0" "nextId st0"] by auto

lemma tracked_onInput:
  assumes p: "pristine env st0" and t: "tracked env st0 st"
  shows "tracked env st0 (onInput env v st)"
  using tracked_empty [OF p t] tracked_query [OF p t] by blast

lemma tracked_afterInputs:
  assumes p: "pristine env st0"
  shows "tracked env st0 (afterInputs env vs st0)"
proof (induction vs rule: rev_induct)
  case Nil
  show ?case by (simp add: afterInputs_def tracked_initial [OF p])
next
  case (snoc v vs)
  then show ?case by (simp add: afterInputs_def tracked_onInput [OF p])
qed


section \<open>The properties of the search\<close>





lemma firstSplit_unique:
  assumes "firstSplit q s b mid a" "firstSplit q s b' mid' a'"
  shows "b = b' \<and> mid = mid' \<and> a = a'"
proof -
  from assms have s: "s = b @ mid @ a" "s = b' @ mid' @ a'"
    and m: "toLowerCase mid = q" "toLowerCase mid' = q"
    and f: "\<And>pre post. toLowerCase s = pre @ q @ post \<Longrightarrow> length b \<le> length pre"
           "\<And>pre post. toLowerCase s = pre @ q @ post \<Longrightarrow> length b' \<le> length pre"
    unfolding firstSplit_def by blast+
  have "toLowerCase s = toLowerCase b' @ q @ toLowerCase a'" using s(2) m(2) by simp
  from f(1) [OF this] have 1: "length b \<le> length b'" by simp
  have "toLowerCase s = toLowerCase b @ q @ toLowerCase a" using s(1) m(1) by simp
  from f(2) [OF this] have 2: "length b' \<le> length b" by simp
  have l: "length mid = length mid'"
    using m by (metis toLowerCase_simps(1))
  from 1 2 have "length b = length b'" by simp
  with s have "b = b'" "mid @ a = mid' @ a'" by auto
  with l show ?thesis by auto
qed

inductive_cases highlighted_NilE: "highlighted D q n b [] t"
inductive_cases highlighted_TextE: "highlighted D q n b (Text s # ks) t"
inductive_cases highlighted_ElemE: "highlighted D q n b (Elem i cs # ks) t"

lemma render_tx: "map (render o1) (tx s) = map (render o2) (tx s)"
  by (simp add: tx_def)

lemma highlighted_render:
  assumes o: "\<And>i. i < n \<Longrightarrow> o1 i = o2 i"
  shows "highlighted D q n b t0 t1 \<Longrightarrow> highlighted D q n b t0 t2
     \<Longrightarrow> (\<forall>m \<in> set (elems t1). n \<le> m \<longrightarrow> o1 m = E)
     \<Longrightarrow> (\<forall>m \<in> set (elems t2). n \<le> m \<longrightarrow> o2 m = E)
     \<Longrightarrow> map (render o1) t1 = map (render o2) t2"
proof (induction arbitrary: t2 rule: highlighted.induct)
  case (highlighted_Nil inside)
  then show ?case by (auto elim: highlighted_NilE)
next
  case (highlighted_Text inside s ks ks')
  from highlighted_Text.prems(1) highlighted_Text.hyps(1)
  obtain ks2 where t2: "t2 = Text s # ks2" and h: "highlighted D q n inside ks ks2"
    by (auto elim: highlighted_TextE)
  have "map (render o1) ks' = map (render o2) ks2"
    using h highlighted_Text.prems(2,3) by (intro highlighted_Text.IH) (simp_all add: t2)
  then show ?case by (simp add: t2)
next
  case (highlighted_Mark inside s b mid a m ks ks')
  from highlighted_Mark.prems(1) highlighted_Mark.hyps(1,2)
  obtain b' mid' a' m' ks2 where t2: "t2 = tx b' @ Elem m' [Text mid'] # tx a' @ ks2"
    and f: "firstSplit q s b' mid' a'" and m': "n \<le> m'"
    and h: "highlighted D q n inside ks ks2"
    by (auto elim: highlighted_TextE)
  from firstSplit_unique [OF highlighted_Mark.hyps(3) f]
  have e: "b' = b" "mid' = mid" "a' = a" by simp_all
  have "map (render o1) ks' = map (render o2) ks2"
    using h highlighted_Mark.prems(2,3) by (intro highlighted_Mark.IH) (simp_all add: t2)
  moreover have "o1 m = E" using highlighted_Mark.prems(2) highlighted_Mark.hyps(4) by simp
  moreover have "o2 m' = E" using highlighted_Mark.prems(3) m' by (simp add: t2)
  ultimately show ?case by (simp add: t2 e render_tx [of o1 _ o2])
next
  case (highlighted_Elem i inside cs cs' ks ks')
  from highlighted_Elem.prems(1)
  obtain cs2 ks2 where t2: "t2 = Elem i cs2 # ks2"
    and h: "highlighted D q n (inside \<or> D i) cs cs2" "highlighted D q n inside ks ks2"
    by (auto elim: highlighted_ElemE)
  have "map (render o1) cs' = map (render o2) cs2"
    using h(1) highlighted_Elem.prems(2,3) by (intro highlighted_Elem.IH(1)) (simp_all add: t2)
  moreover have "map (render o1) ks' = map (render o2) ks2"
    using h(2) highlighted_Elem.prems(2,3) by (intro highlighted_Elem.IH(2)) (simp_all add: t2)
  ultimately show ?case using o [OF highlighted_Elem.hyps(1)] by (simp add: t2)
qed

lemma textsL_simps [simp]:
  "textsL [] = []"
  "textsL (Text s # ks) = s # textsL ks"
  "textsL (Elem i cs # ks) = textsL cs @ textsL ks"
  by (simp_all add: textsL_def)




lemma class_objsCleared:
  "c \<noteq> ''hidden'' \<Longrightarrow> (c \<in> classList (objsCleared env st0 i)) = (c \<in> classList (objs st0 i))"
  by (simp add: objsCleared_def)


text \<open>
  Claim C4. The page is one as loaded with a search instance on it. After any input
  events, an input event whose query is empty leaves every item and every section of
  the instance without the class \<open>hidden\<close>, the empty-state element with it, no
  element of the document with the class \<open>search-highlight\<close>, and the document
  (every element with its text nodes) as it was when the page was loaded.
\<close>

theorem search_round_trip:
  assumes p: "pristine env st0" and v: "trim (toLowerCase v) = []"
      and st': "st' = onInput env v (afterInputs env vs st0)"
  shows "(\<forall>i \<in> set (navItems env). \<not> hasClass st' ''hidden'' i)
       \<and> (\<forall>s \<in> set (sections env). \<not> hasClass st' ''hidden'' s)
       \<and> hasClass st' ''hidden'' (emptyState env)
       \<and> document_querySelectorAll st' (hasClass st' ''search-highlight'') = []
       \<and> doc st' = doc st0"
proof -
  note t = tracked_afterInputs [OF p, of vs]
  note o = onInput_empty [OF p t v, folded st']
  have 1: "\<forall>i \<in> set (navItems env). \<not> hasClass st' ''hidden'' i"
    using o(3) base_lt(1) [OF p] by (simp add: hasClass_def objsCleared_def)
  have 2: "\<forall>s \<in> set (sections env). \<not> hasClass st' ''hidden'' s"
    using o(3) base_lt(2) [OF p] by (simp add: hasClass_def objsCleared_def)
  have 3: "hasClass st' ''hidden'' (emptyState env)"
    using o(3) [OF pristine_facts(11) [OF p]] pristine_facts(12,13) [OF p]
    by (simp add: hasClass_def objsCleared_def)
  have "\<not> hasClass st' ''search-highlight'' x" if "x \<in> set (elems (doc st0))" for x
    using o(3) [OF pristine_facts(3) [OF p that]] pristine_facts(4) [OF p that]
    by (simp add: hasClass_def class_objsCleared)
  then have 4: "document_querySelectorAll st' (hasClass st' ''search-highlight'') = []"
    by (simp add: document_querySelectorAll_def o(1) filter_empty_conv)
  from 1 2 3 4 o(1) show ?thesis by blast
qed


text \<open>
  Claim C5. The page is one as loaded with a search instance on it. After any input
  events, two input events in a row with the same value, whose query is not empty,
  leave every item, every section and the empty-state element with the class
  \<open>hidden\<close> exactly when one such event does, leave every element object that the
  page had when it was loaded the same, and leave the same rendered document: the same
  tree of element objects and text nodes, highlight markers included (the second event
  makes new marker objects, equal to the ones it removed).
\<close>

theorem search_idempotent:
  assumes p: "pristine env st0" and q: "trim (toLowerCase v) \<noteq> []"
      and st1: "st1 = onInput env v (afterInputs env vs st0)" and st2: "st2 = onInput env v st1"
  shows "(\<forall>i \<in> set (navItems env) \<union> set (sections env) \<union> {emptyState env}.
            hasClass st2 ''hidden'' i = hasClass st1 ''hidden'' i)
       \<and> (\<forall>i. i < nextId st0 \<longrightarrow> objs st2 i = objs st1 i)
       \<and> map (render (objs st2)) (doc st2) = map (render (objs st1)) (doc st1)"
proof -
  note t0 = tracked_afterInputs [OF p, of vs]
  note o1 = onInput_query [OF p t0 refl q, folded st1]
  have t1: "tracked env st0 st1" unfolding st1 by (rule tracked_query [OF p t0 q])
  note o2 = onInput_query [OF p t1 refl q, folded st2]
  have e: "objs st2 i = objs st1 i" if "i < nextId st0" for i
    using o1(5) [OF that] o2(5) [OF that] by simp
  have 1: "\<forall>i \<in> set (navItems env) \<union> set (sections env) \<union> {emptyState env}.
            hasClass st2 ''hidden'' i = hasClass st1 ''hidden'' i"
    using e base_lt [OF p] pristine_facts(11) [OF p] by (auto simp add: hasClass_def)
  have m1: "\<forall>m \<in> set (elems (doc st1)). nextId st0 \<le> m \<longrightarrow> objs st1 m = markElement"
  proof (intro ballI impI)
    fix m assume a: "m \<in> set (elems (doc st1))" "nextId st0 \<le> m"
    then have "m < nextId st1"
      using pristine_facts(3) [OF p, of m] unfolding o1(3) by auto
    with a(2) show "objs st1 m = markElement" by (rule o1(6))
  qed
  have m2: "\<forall>m \<in> set (elems (doc st2)). nextId st0 \<le> m \<longrightarrow> objs st2 m = markElement"
  proof (intro ballI impI)
    fix m assume a: "m \<in> set (elems (doc st2))" "nextId st0 \<le> m"
    then have "m < nextId st2"
      using pristine_facts(3) [OF p, of m] unfolding o2(3) by auto
    with a(2) show "objs st2 m = markElement" by (rule o2(6))
  qed
  have 3: "map (render (objs st2)) (doc st2) = map (render (objs st1)) (doc st1)"
    using e o2(1) o1(1) m2 m1 by (rule highlighted_render)
  from 1 e 3 show ?thesis by blast
qed


lemma exampleEnv_fields:
  "navItems exampleEnv = [5, 6, 9]" "sections exampleEnv = [4, 8]" "emptyState exampleEnv = 10"
  by code_simp+

lemma searchPage_pristine: "pristine exampleEnv searchPage"
  by code_simp


theorem search_round_trip_witness:
  "pristine exampleEnv searchPage
   \<and> trim (toLowerCase '''') = []
   \<and> document_querySelectorAll (afterInputs exampleEnv [''Hola''] searchPage)
        (hasClass (afterInputs exampleEnv [''Hola''] searchPage) ''search-highlight'') = [12]
   \<and> hasClass (afterInputs exampleEnv [''Hola''] searchPage) ''hidden'' 9
   \<and> \<not> hasClass (onInput exampleEnv '''' (afterInputs exampleEnv [''Hola''] searchPage)) ''hidden'' 5
   \<and> \<not> hasClass (onInput exampleEnv '''' (afterInputs exampleEnv [''Hola''] searchPage)) ''hidden'' 9
   \<and> \<not> hasClass (onInput exampleEnv '''' (afterInputs exampleEnv [''Hola''] searchPage)) ''hidden'' 8
   \<and> hasClass (onInput exampleEnv '''' (afterInputs exampleEnv [''Hola''] searchPage)) ''hidden'' 10
   \<and> document_querySelectorAll (onInput exampleEnv '''' (afterInputs exampleEnv [''Hola''] searchPage))
        (hasClass (onInput exampleEnv '''' (afterInputs exampleEnv [''Hola''] searchPage))
           ''search-highlight'') = []
   \<and> doc (onInput exampleEnv '''' (afterInputs exampleEnv [''Hola''] searchPage)) = doc searchPage"
proof -
  have v: "trim (toLowerCase '''') = []" by code_simp
  have a: "document_querySelectorAll (afterInputs exampleEnv [''Hola''] searchPage)
        (hasClass (afterInputs exampleEnv [''Hola''] searchPage) ''search-highlight'') = [12]"
    by code_simp
  have b: "hasClass (afterInputs exampleEnv [''Hola''] searchPage) ''hidden'' 9"
    by code_simp
  have v': "trim [] = []" by code_simp
  show ?thesis
    using search_round_trip [OF searchPage_pristine v refl, of "[''Hola'']"] a b
    by (simp add: exampleEnv_fields searchPage_pristine v')
qed


theorem search_idempotent_witness:
  "pristine exampleEnv searchPage
   \<and> trim (toLowerCase ''Hola'') \<noteq> []
   \<and> document_querySelectorAll (onInput exampleEnv ''Hola'' (afterInputs exampleEnv [] searchPage))
        (hasClass (onInput exampleEnv ''Hola'' (afterInputs exampleEnv [] searchPage))
           ''search-highlight'') = [12]
   \<and> document_querySelectorAll
        (onInput exampleEnv ''Hola'' (onInput exampleEnv ''Hola'' (afterInputs exampleEnv [] searchPage)))
        (hasClass
           (onInput exampleEnv ''Hola'' (onInput exampleEnv ''Hola'' (afterInputs exampleEnv [] searchPage)))
           ''search-highlight'') = [13]
   \<and> hasClass
        (onInput exampleEnv ''Hola'' (onInput exampleEnv ''Hola'' (afterInputs exampleEnv [] searchPage)))
        ''hidden'' 9
   \<and> hasClass (onInput exampleEnv ''Hola'' (afterInputs exampleEnv [] searchPage)) ''hidden'' 9
   \<and> map (render (objs (onInput exampleEnv ''Hola''
              (onInput exampleEnv ''Hola'' (afterInputs exampleEnv [] searchPage)))))
        (doc (onInput exampleEnv ''Hola''
              (onInput exampleEnv ''Hola'' (afterInputs exampleEnv [] searchPage))))
       = map (render (objs (onInput exampleEnv ''Hola'' (afterInputs exampleEnv [] searchPage))))
           (doc (onInput exampleEnv ''Hola'' (afterInputs exampleEnv [] searchPage)))"
proof -
  let ?st1 = "onInput exampleEnv ''Hola'' (afterInputs exampleEnv [] searchPage)"
  let ?st2 = "onInput exampleEnv ''Hola'' ?st1"
  have v: "trim (toLowerCase ''Hola'') \<noteq> []" by code_simp
  have a: "document_querySelectorAll ?st1 (hasClass ?st1 ''search-highlight'') = [12]"
    by code_simp
  have b: "document_querySelectorAll ?st2 (hasClass ?st2 ''search-highlight'') = [13]"
    by code_simp
  have c: "hasClass ?st1 ''hidden'' 9" by code_simp
  show ?thesis
    using search_idempotent [OF searchPage_pristine v refl refl, of "[]"] a b c
    by (simp add: exampleEnv_fields searchPage_pristine v)
qed


end
